theory Spec2Isabelle
  imports Main "HOL-Library.Word"
begin

text \<open>
  The task queue of the PDF page counter: the task type of \<^verbatim>\<open>types.ts\<close>, the file name
  derivation of \<^verbatim>\<open>services/pdfService\<close>, and the functions of the \<^verbatim>\<open>App\<close> component that add
  tasks, run them and export them. The definitions come first, in the order of the source;
  the properties follow.
\<close>

section \<open>JavaScript strings\<close>

text \<open>
  A JavaScript string is a sequence of UTF-16 code units. The string methods used by the
  application (\<^verbatim>\<open>trim\<close>, \<^verbatim>\<open>startsWith\<close>, \<^verbatim>\<open>lastIndexOf\<close>, \<^verbatim>\<open>substring\<close>, \<^verbatim>\<open>split\<close>) all work on
  code units, so a string is a list of 16-bit words. \<open>str\<close> writes an ASCII literal.
\<close>

type_synonym jsstring = "16 word list"

definition str :: "string \<Rightarrow> jsstring" where
  "str s = map (\<lambda>c. word_of_nat (of_char c)) s"

text \<open>
  The code units removed by \<^verbatim>\<open>String.prototype.trim\<close>: ECMAScript's WhiteSpace (TAB, VT, FF,
  ZWNBSP and the Unicode space separators) and LineTerminator (LF, CR, LS, PS).
\<close>

definition isWhiteSpace :: "16 word \<Rightarrow> bool" where
  "isWhiteSpace c \<longleftrightarrow>
     c = 0x9 \<or> c = 0xA \<or> c = 0xB \<or> c = 0xC \<or> c = 0xD \<or> c = 0x20 \<or> c = 0xA0 \<or>
     c = 0x1680 \<or> (0x2000 \<le> c \<and> c \<le> 0x200A) \<or> c = 0x2028 \<or> c = 0x2029 \<or>
     c = 0x202F \<or> c = 0x205F \<or> c = 0x3000 \<or> c = 0xFEFF"

definition trim :: "jsstring \<Rightarrow> jsstring" where
  "trim s = rev (dropWhile isWhiteSpace (rev (dropWhile isWhiteSpace s)))"

definition startsWith :: "jsstring \<Rightarrow> jsstring \<Rightarrow> bool" where
  "startsWith s p \<longleftrightarrow> take (length p) s = p"

text \<open>
  \<^verbatim>\<open>s.lastIndexOf(c)\<close> for a one-unit search string: the largest index holding \<open>c\<close>, or
  \<open>-1\<close>. The scan carries the current index and the last hit.
\<close>

fun lastIndexOf_from :: "'a list \<Rightarrow> 'a \<Rightarrow> nat \<Rightarrow> int \<Rightarrow> int" where
  "lastIndexOf_from [] c k found = found"
| "lastIndexOf_from (x # xs) c k found =
     lastIndexOf_from xs c (Suc k) (if x = c then int k else found)"

definition lastIndexOf :: "'a list \<Rightarrow> 'a \<Rightarrow> int" where
  "lastIndexOf s c = lastIndexOf_from s c 0 (- 1)"

text \<open>\<^verbatim>\<open>s.substring(start)\<close>: the start index is clamped to \<open>[0, length]\<close>.\<close>

definition substring :: "'a list \<Rightarrow> int \<Rightarrow> 'a list" where
  "substring s start = drop (nat (max 0 (min start (int (length s))))) s"

text \<open>
  \<^verbatim>\<open>s.split(c)\<close> for a one-unit separator. The result is never empty: the empty string
  splits into one empty piece.
\<close>

fun split :: "'a list \<Rightarrow> 'a \<Rightarrow> 'a list list" where
  "split [] c = [[]]"
| "split (x # xs) c =
     (if x = c then [] # split xs c
      else (case split xs c of [] \<Rightarrow> [[x]] | p # ps \<Rightarrow> (x # p) # ps))"

text \<open>
  The decimal rendering of a non-negative integer, as the template literal
  \<^verbatim>\<open>`HTTP ${response.status}: ...`\<close> produces it.
\<close>

function number_toString :: "nat \<Rightarrow> jsstring" where
  "number_toString n =
     (if n < 10 then [word_of_nat (48 + n)]
      else number_toString (n div 10) @ [word_of_nat (48 + n mod 10)])"
  by pat_completeness auto
termination
  by (relation "measure (\<lambda>n. n)") auto

section \<open>types.ts\<close>

datatype TaskStatus = IDLE | DOWNLOADING | ANALYZING | COMPLETED | FAILED

text \<open>
  \<^verbatim>\<open>PdfTask\<close>. The optional fields \<^verbatim>\<open>pageCount?\<close> and \<^verbatim>\<open>error?\<close> are options: \<open>None\<close> is
  \<^verbatim>\<open>undefined\<close>. The field \<^verbatim>\<open>id\<close> is called \<open>id_t\<close>.
\<close>

record PdfTask =
  id_t :: jsstring
  url :: jsstring
  fileName :: jsstring
  pageCount :: "nat option"
  status :: TaskStatus
  error :: "jsstring option"

text \<open>\<^verbatim>\<open>ExcelExportData\<close>: the cell \<^verbatim>\<open>"Page Count"\<close> has type \<^verbatim>\<open>number | string\<close>.\<close>

datatype cell = Number nat | Text jsstring

record ExcelExportData =
  File_Name :: jsstring
  URL :: jsstring
  Page_Count :: cell

section \<open>services/pdfService: getFileNameFromUrl\<close>

text \<open>
  The two functions of the JavaScript platform that \<^verbatim>\<open>getFileNameFromUrl\<close> calls are
  parameters: \<open>URL_pathname u\<close> is \<^verbatim>\<open>new URL(u).pathname\<close>, and \<open>None\<close> when the constructor
  throws; \<open>decodeURIComponent s\<close> is \<open>None\<close> when it throws a \<^verbatim>\<open>URIError\<close>.
\<close>

record platform =
  URL_pathname :: "jsstring \<Rightarrow> jsstring option"
  decodeURIComponent :: "jsstring \<Rightarrow> jsstring option"

definition document_pdf :: jsstring where
  "document_pdf = str ''document.pdf''"

text \<open>
  The body of the \<^verbatim>\<open>try\<close> block; \<open>None\<close> is an exception. Reading element \<open>0\<close> of an
  empty array would give \<^verbatim>\<open>undefined\<close>, and the next method call on it would throw. The code
  units \<open>0x2F\<close>, \<open>0x3F\<close> and \<open>0x23\<close> are the slash, the question mark and the hash sign.
\<close>

definition fileName_try :: "platform \<Rightarrow> jsstring \<Rightarrow> jsstring option" where
  "fileName_try pf u =
     (case URL_pathname pf u of
        None \<Rightarrow> None
      | Some pathname \<Rightarrow>
          (let fileName = substring pathname (lastIndexOf pathname (0x2F) + 1) in
           case split fileName (0x3F) of
             [] \<Rightarrow> None
           | beforeQuery # _ \<Rightarrow>
               (case split beforeQuery (0x23) of
                  [] \<Rightarrow> None
                | cleanFileName # _ \<Rightarrow>
                    (case decodeURIComponent pf cleanFileName of
                       None \<Rightarrow> None
                     | Some decoded \<Rightarrow>
                         Some (if decoded = [] then document_pdf else decoded)))))"

definition getFileNameFromUrl :: "platform \<Rightarrow> jsstring \<Rightarrow> jsstring" where
  "getFileNameFromUrl pf u =
     (case fileName_try pf u of None \<Rightarrow> document_pdf | Some name \<Rightarrow> name)"

section \<open>App: the task list\<close>

text \<open>
  \<^verbatim>\<open>processUrls\<close>. \<open>uuidv4 k\<close> is the value the \<open>k\<close>-th call of \<^verbatim>\<open>uuidv4()\<close> in this
  invocation returns. The last argument is the task list the state updater receives as
  \<^verbatim>\<open>prev\<close>; when no URL is valid the function returns before calling \<^verbatim>\<open>setTasks\<close>.
\<close>

definition validUrls :: "jsstring list \<Rightarrow> jsstring list" where
  "validUrls urls =
     filter (\<lambda>u. u \<noteq> [] \<and> (startsWith u (str ''http://'') \<or> startsWith u (str ''https://'')))
       (map trim urls)"

definition newTask :: "platform \<Rightarrow> jsstring \<Rightarrow> jsstring \<Rightarrow> PdfTask" where
  "newTask pf new_id u =
     \<lparr>id_t = new_id, url = u, fileName = getFileNameFromUrl pf u,
      pageCount = None, status = IDLE, error = None\<rparr>"

definition processUrls ::
  "platform \<Rightarrow> (nat \<Rightarrow> jsstring) \<Rightarrow> jsstring list \<Rightarrow> PdfTask list \<Rightarrow> PdfTask list" where
  "processUrls pf uuidv4 urls prev =
     (if length (validUrls urls) = 0 then prev
      else prev @ map (\<lambda>(k, u). newTask pf (uuidv4 k) u) (enumerate 0 (validUrls urls)))"

definition removeTask :: "jsstring \<Rightarrow> PdfTask list \<Rightarrow> PdfTask list" where
  "removeTask tid prev = filter (\<lambda>t. id_t t \<noteq> tid) prev"

section \<open>App: runTasks\<close>

text \<open>
  \<^verbatim>\<open>fetch(url)\<close> rejects with an error, of which the code reads the message, or resolves
  to a response, of which it reads \<^verbatim>\<open>ok\<close>, \<^verbatim>\<open>status\<close> and \<^verbatim>\<open>blob()\<close>; the latter rejects or
  resolves to the bytes, of a type \<open>'b\<close> left open. Whatever is thrown inside the \<^verbatim>\<open>try\<close>
  block is taken to be an error object, so that its \<^verbatim>\<open>message\<close> is a string.
\<close>

datatype 'b fetch_result = Rejected jsstring | Response bool nat "jsstring + 'b"

definition http_error :: "nat \<Rightarrow> jsstring" where
  "http_error code = str ''HTTP '' @ number_toString code @ str '': Failed to download''"

text \<open>
  The first half of the \<^verbatim>\<open>try\<close> block, from the settled fetch to the blob: \<open>Inl\<close> carries
  the message of the error thrown, which the \<^verbatim>\<open>catch\<close> clause stores.
\<close>

fun download :: "'b fetch_result \<Rightarrow> jsstring + 'b" where
  "download (Rejected message) = Inl message"
| "download (Response ok code body) = (if \<not> ok then Inl (http_error code) else body)"

text \<open>The four object spreads applied to the task whose id matches.\<close>

definition to_downloading :: "PdfTask \<Rightarrow> PdfTask" where
  "to_downloading t = t\<lparr>status := DOWNLOADING, error := None\<rparr>"

definition to_analyzing :: "PdfTask \<Rightarrow> PdfTask" where
  "to_analyzing t = t\<lparr>status := ANALYZING\<rparr>"

definition to_completed :: "nat \<Rightarrow> PdfTask \<Rightarrow> PdfTask" where
  "to_completed n t = t\<lparr>status := COMPLETED, pageCount := Some n\<rparr>"

definition to_failed :: "jsstring \<Rightarrow> PdfTask \<Rightarrow> PdfTask" where
  "to_failed message t = t\<lparr>status := FAILED, error := Some message\<rparr>"

text \<open>The updater \<^verbatim>\<open>prev => prev.map(t => t.id === task.id ? f(t) : t)\<close>.\<close>

definition update_task :: "jsstring \<Rightarrow> (PdfTask \<Rightarrow> PdfTask) \<Rightarrow> PdfTask list \<Rightarrow> PdfTask list" where
  "update_task tid f prev = map (\<lambda>t. if id_t t = tid then f t else t) prev"

text \<open>
  One iteration of the loop, run to its end with nothing else writing the task list.
  The collaborators take the loop index as well: \<open>fetch i u\<close> is how the fetch issued by
  iteration \<open>i\<close> settles and \<open>getPageCount i b\<close> how the page count requested by iteration
  \<open>i\<close> settles (\<open>Inl\<close> the message of the error, \<open>Inr\<close> the number of pages), so that neither
  has to be a function of its argument alone.
\<close>

definition process_task ::
  "(nat \<Rightarrow> jsstring \<Rightarrow> 'b fetch_result) \<Rightarrow> (nat \<Rightarrow> 'b \<Rightarrow> jsstring + nat) \<Rightarrow>
   nat \<Rightarrow> PdfTask \<Rightarrow> PdfTask list \<Rightarrow> PdfTask list" where
  "process_task fetch getPageCount i task prev =
     (if status task = COMPLETED then prev
      else
        let prev1 = update_task (id_t task) to_downloading prev in
        case download (fetch i (url task)) of
          Inl message \<Rightarrow> update_task (id_t task) (to_failed message) prev1
        | Inr blob \<Rightarrow>
            (let prev2 = update_task (id_t task) to_analyzing prev1 in
             case getPageCount i blob of
               Inl message \<Rightarrow> update_task (id_t task) (to_failed message) prev2
             | Inr n \<Rightarrow> update_task (id_t task) (to_completed n) prev2))"

function run_loop ::
  "(nat \<Rightarrow> jsstring \<Rightarrow> 'b fetch_result) \<Rightarrow> (nat \<Rightarrow> 'b \<Rightarrow> jsstring + nat) \<Rightarrow>
   PdfTask list \<Rightarrow> nat \<Rightarrow> PdfTask list \<Rightarrow> PdfTask list" where
  "run_loop fetch getPageCount tasksToProcess i prev =
     (if i < length tasksToProcess
      then run_loop fetch getPageCount tasksToProcess (Suc i)
             (process_task fetch getPageCount i (tasksToProcess ! i) prev)
      else prev)"
  by pat_completeness auto
termination
  by (relation "measure (\<lambda>(fetch, getPageCount, tasksToProcess, i, prev). length tasksToProcess - i)")
    auto

section \<open>App: exportToExcel\<close>

text \<open>The rows handed to the spreadsheet library, one per task.\<close>

definition exportData :: "PdfTask list \<Rightarrow> ExcelExportData list" where
  "exportData ts =
     map (\<lambda>t. \<lparr>File_Name = fileName t, URL = url t,
               Page_Count = (case pageCount t of
                               Some n \<Rightarrow> Number n
                             | None \<Rightarrow> if status t = FAILED then Text (str ''Error'')
                                       else Text (str ''Pending''))\<rparr>) ts"

section \<open>App: the component as a transition system\<close>

text \<open>
  The state of the component: the two state variables the code reads and writes, and
  where \<^verbatim>\<open>runTasks\<close> stands. A run in progress holds its copy \<^verbatim>\<open>tasksToProcess\<close> and its
  index \<^verbatim>\<open>i\<close>; it is at the loop test, or suspended at \<^verbatim>\<open>await fetch\<close>, or suspended at
  \<^verbatim>\<open>await getPageCount\<close> with the blob it passed.
\<close>

datatype 'b control =
    Stopped
  | AtLoop "PdfTask list" nat
  | AwaitFetch "PdfTask list" nat
  | AwaitPageCount "PdfTask list" nat 'b

record 'b app =
  tasks :: "PdfTask list"
  isProcessing :: bool
  ctl :: "'b control"

definition initial_app :: "'b app" where
  "initial_app = \<lparr>tasks = [], isProcessing = False, ctl = Stopped\<rparr>"

text \<open>
  A whole run with no other event in between: \<^verbatim>\<open>setIsProcessing(true)\<close>, the copy of the
  task list, the loop, \<^verbatim>\<open>setIsProcessing(false)\<close>.
\<close>

definition runTasks ::
  "(nat \<Rightarrow> jsstring \<Rightarrow> 'b fetch_result) \<Rightarrow> (nat \<Rightarrow> 'b \<Rightarrow> jsstring + nat) \<Rightarrow> 'b app \<Rightarrow> 'b app" where
  "runTasks fetch getPageCount c =
     c\<lparr>tasks := run_loop fetch getPageCount (tasks c) 0 (tasks c), isProcessing := False\<rparr>"

text \<open>
  What can happen to the component. \<open>ProcessUrls\<close> is a call of \<^verbatim>\<open>processUrls\<close> (from the
  text area or from a spreadsheet that has finished loading, which may be during a run);
  \<open>RemoveTask\<close>, \<open>ClearAll\<close> (confirmed) and \<open>RunTasks\<close> are the buttons, which the component
  disables while \<^verbatim>\<open>isProcessing\<close>; \<open>Resume\<close> is the run executing its loop test up to the
  next state update; \<open>FetchSettled\<close> and \<open>PageCountSettled\<close> are the two awaited promises
  settling, with any result.
\<close>

datatype 'b event =
    ProcessUrls "nat \<Rightarrow> jsstring" "jsstring list"
  | RemoveTask jsstring
  | ClearAll
  | RunTasks
  | Resume
  | FetchSettled "'b fetch_result"
  | PageCountSettled "jsstring + nat"

text \<open>
  A step is \<open>None\<close> when the event cannot happen in the state: a button is disabled, no
  promise of that kind is awaited, or the state is none the code can be in (a run
  suspended on a task beyond the end of its copy). \<^verbatim>\<open>uuidv4\<close> is taken to return
  identifiers that are new: a call of \<^verbatim>\<open>processUrls\<close> whose identifiers would repeat one
  another or one in the list is not a step.
\<close>

fun step :: "platform \<Rightarrow> 'b event \<Rightarrow> 'b app \<Rightarrow> 'b app option" where
  "step pf (ProcessUrls uuidv4 urls) c =
     (if distinct (map id_t (processUrls pf uuidv4 urls (tasks c)))
      then Some (c\<lparr>tasks := processUrls pf uuidv4 urls (tasks c)\<rparr>)
      else None)"
| "step pf (RemoveTask tid) c =
     (if isProcessing c then None else Some (c\<lparr>tasks := removeTask tid (tasks c)\<rparr>))"
| "step pf ClearAll c =
     (if isProcessing c then None else Some (c\<lparr>tasks := []\<rparr>))"
| "step pf RunTasks c =
     (if isProcessing c then None
      else Some (c\<lparr>isProcessing := True, ctl := AtLoop (tasks c) 0\<rparr>))"
| "step pf Resume c =
     (case ctl c of
        AtLoop tasksToProcess i \<Rightarrow>
          (if i < length tasksToProcess then
             (if status (tasksToProcess ! i) = COMPLETED
              then Some (c\<lparr>ctl := AtLoop tasksToProcess (Suc i)\<rparr>)
              else Some (c\<lparr>tasks := update_task (id_t (tasksToProcess ! i)) to_downloading (tasks c),
                          ctl := AwaitFetch tasksToProcess i\<rparr>))
           else Some (c\<lparr>isProcessing := False, ctl := Stopped\<rparr>))
      | _ \<Rightarrow> None)"
| "step pf (FetchSettled r) c =
     (case ctl c of
        AwaitFetch tasksToProcess i \<Rightarrow>
          (if i < length tasksToProcess then
             (case download r of
                Inl message \<Rightarrow>
                  Some (c\<lparr>tasks := update_task (id_t (tasksToProcess ! i)) (to_failed message) (tasks c),
                          ctl := AtLoop tasksToProcess (Suc i)\<rparr>)
              | Inr blob \<Rightarrow>
                  Some (c\<lparr>tasks := update_task (id_t (tasksToProcess ! i)) to_analyzing (tasks c),
                          ctl := AwaitPageCount tasksToProcess i blob\<rparr>))
           else None)
      | _ \<Rightarrow> None)"
| "step pf (PageCountSettled r) c =
     (case ctl c of
        AwaitPageCount tasksToProcess i blob \<Rightarrow>
          (if i < length tasksToProcess then
             (case r of
                Inl message \<Rightarrow>
                  Some (c\<lparr>tasks := update_task (id_t (tasksToProcess ! i)) (to_failed message) (tasks c),
                          ctl := AtLoop tasksToProcess (Suc i)\<rparr>)
              | Inr n \<Rightarrow>
                  Some (c\<lparr>tasks := update_task (id_t (tasksToProcess ! i)) (to_completed n) (tasks c),
                          ctl := AtLoop tasksToProcess (Suc i)\<rparr>))
           else None)
      | _ \<Rightarrow> None)"

inductive reachable :: "platform \<Rightarrow> 'b app \<Rightarrow> bool" for pf :: platform where
  initial: "reachable pf initial_app"
| after: "reachable pf c \<Longrightarrow> step pf e c = Some c' \<Longrightarrow> reachable pf c'"

text \<open>A sequence of events, run from a state; \<open>None\<close> when one of them cannot happen.\<close>

fun exec :: "platform \<Rightarrow> 'b event list \<Rightarrow> 'b app \<Rightarrow> 'b app option" where
  "exec pf [] c = Some c"
| "exec pf (e # es) c = (case step pf e c of None \<Rightarrow> None | Some c' \<Rightarrow> exec pf es c')"

section \<open>Predicates on tasks and on states\<close>

definition active :: "PdfTask \<Rightarrow> bool" where
  "active t \<longleftrightarrow> status t = DOWNLOADING \<or> status t = ANALYZING"

definition terminal :: "PdfTask \<Rightarrow> bool" where
  "terminal t \<longleftrightarrow> status t = COMPLETED \<or> status t = FAILED"

text \<open>A task as \<^verbatim>\<open>processUrls\<close> creates it.\<close>

definition untouched :: "PdfTask \<Rightarrow> bool" where
  "untouched t \<longleftrightarrow> status t = IDLE \<and> pageCount t = None \<and> error t = None"

text \<open>The coupling of the two optional fields to the status.\<close>

definition task_inv :: "PdfTask \<Rightarrow> bool" where
  "task_inv t \<longleftrightarrow>
     (pageCount t \<noteq> None \<longleftrightarrow> status t = COMPLETED) \<and> (error t \<noteq> None \<longleftrightarrow> status t = FAILED)"

text \<open>
  What the rest of an iteration, after the task has been set to \<open>DOWNLOADING\<close>, makes of
  that task: the composition of the object spreads along the path taken.
\<close>

definition settle :: "'b fetch_result \<Rightarrow> ('b \<Rightarrow> jsstring + nat) \<Rightarrow> PdfTask \<Rightarrow> PdfTask" where
  "settle r inspect t =
     (case download r of
        Inl message \<Rightarrow> to_failed message t
      | Inr blob \<Rightarrow>
          (case inspect blob of
             Inl message \<Rightarrow> to_failed message (to_analyzing t)
           | Inr n \<Rightarrow> to_completed n (to_analyzing t)))"

text \<open>The copy of the task list a run holds, and the index it has reached.\<close>

fun run_snapshot :: "'b control \<Rightarrow> PdfTask list" where
  "run_snapshot Stopped = []"
| "run_snapshot (AtLoop tasksToProcess i) = tasksToProcess"
| "run_snapshot (AwaitFetch tasksToProcess i) = tasksToProcess"
| "run_snapshot (AwaitPageCount tasksToProcess i blob) = tasksToProcess"

fun run_index :: "'b control \<Rightarrow> nat" where
  "run_index Stopped = 0"
| "run_index (AtLoop tasksToProcess i) = i"
| "run_index (AwaitFetch tasksToProcess i) = i"
| "run_index (AwaitPageCount tasksToProcess i blob) = i"

text \<open>
  The position of a run with copy \<open>S\<close> and index \<open>i\<close> in the task list \<open>ts\<close>: the list
  starts with the tasks of the copy, by id; a task before \<open>i\<close> is as it was if the copy
  has it \<open>COMPLETED\<close> and has reached \<open>COMPLETED\<close> or \<open>FAILED\<close> otherwise; a task after \<open>i\<close>
  is as it was; a task behind the copy is as it was created.
\<close>

definition frontier :: "PdfTask list \<Rightarrow> nat \<Rightarrow> PdfTask list \<Rightarrow> bool" where
  "frontier S i ts \<longleftrightarrow>
     length S \<le> length ts \<and>
     (\<forall>j < length S. id_t (ts ! j) = id_t (S ! j)) \<and>
     (\<forall>j < length S. j < i \<longrightarrow>
        (if status (S ! j) = COMPLETED then ts ! j = S ! j else terminal (ts ! j))) \<and>
     (\<forall>j < length S. i < j \<longrightarrow> ts ! j = S ! j) \<and>
     (\<forall>j < length ts. length S \<le> j \<longrightarrow> untouched (ts ! j))"

fun ctl_inv :: "'b control \<Rightarrow> PdfTask list \<Rightarrow> bool" where
  "ctl_inv Stopped ts \<longleftrightarrow> (\<forall>t \<in> set ts. \<not> active t)"
| "ctl_inv (AtLoop S i) ts \<longleftrightarrow>
     i \<le> length S \<and> (\<forall>t \<in> set S. \<not> active t) \<and> frontier S i ts \<and>
     (i < length S \<longrightarrow> ts ! i = S ! i)"
| "ctl_inv (AwaitFetch S i) ts \<longleftrightarrow>
     i < length S \<and> (\<forall>t \<in> set S. \<not> active t) \<and> frontier S i ts \<and>
     status (S ! i) \<noteq> COMPLETED \<and> ts ! i = to_downloading (S ! i)"
| "ctl_inv (AwaitPageCount S i blob) ts \<longleftrightarrow>
     i < length S \<and> (\<forall>t \<in> set S. \<not> active t) \<and> frontier S i ts \<and>
     status (S ! i) \<noteq> COMPLETED \<and> ts ! i = to_analyzing (to_downloading (S ! i))"

definition app_inv :: "'b app \<Rightarrow> bool" where
  "app_inv c \<longleftrightarrow>
     distinct (map id_t (tasks c)) \<and> (\<forall>t \<in> set (tasks c). task_inv t) \<and>
     (isProcessing c \<longleftrightarrow> ctl c \<noteq> Stopped) \<and> ctl_inv (ctl c) (tasks c)"

section \<open>The words of the specification\<close>

text \<open>
  The specification speaks of strings that start with an allowed scheme prefix, of the last
  path segment of a URL and of stripping query and fragment. These definitions follow
  its words; the theorems below compare them with the code.
\<close>

definition has_allowed_scheme :: "jsstring \<Rightarrow> bool" where
  "has_allowed_scheme u \<longleftrightarrow> startsWith u (str ''http://'') \<or> startsWith u (str ''https://'')"

text \<open>The last of the pieces between the slashes of a path.\<close>

definition last_path_segment :: "jsstring \<Rightarrow> jsstring" where
  "last_path_segment pathname = last (split pathname (0x2F))"

text \<open>What stands before the first question mark or hash sign.\<close>

definition strip_query_fragment :: "jsstring \<Rightarrow> jsstring" where
  "strip_query_fragment s = takeWhile (\<lambda>c. c \<noteq> 0x3F \<and> c \<noteq> 0x23) s"

definition spec_displayName :: "platform \<Rightarrow> jsstring \<Rightarrow> jsstring" where
  "spec_displayName pf u =
     (case URL_pathname pf u of
        None \<Rightarrow> str ''document.pdf''
      | Some pathname \<Rightarrow>
          (case decodeURIComponent pf (strip_query_fragment (last_path_segment pathname)) of
             None \<Rightarrow> str ''document.pdf''
           | Some name \<Rightarrow> if name = [] then str ''document.pdf'' else name))"

text \<open>
  The message for a response that is not ok names the status code. A code is written as
  a decimal numeral: a non-empty string of the digits \<open>0x30\<close> to \<open>0x39\<close> with no leading zero
  other than the numeral zero itself; \<open>decimal_value\<close> is the number such a string denotes.
\<close>

definition decimal_value :: "jsstring \<Rightarrow> nat" where
  "decimal_value s = foldl (\<lambda>a d. 10 * a + (unat d - 48)) 0 s"

definition is_decimal :: "jsstring \<Rightarrow> bool" where
  "is_decimal s \<longleftrightarrow>
     s \<noteq> [] \<and> (\<forall>d \<in> set s. 0x30 \<le> d \<and> d \<le> 0x39) \<and> (hd s = 0x30 \<longrightarrow> s = [0x30])"

section \<open>Sample inputs\<close>

text \<open>
  For the concrete examples: the platform on the inputs the examples use. The table lists
  the path names the URL parser gives for these URLs; \<^verbatim>\<open>decodeURIComponent\<close> returns a string
  without a percent sign as it is, decodes the one escape the examples contain, and is
  taken to throw on the remaining strings with a percent sign, of which the examples use
  \<^verbatim>\<open>100%.pdf\<close>, where it does throw.
\<close>

definition sample_platform :: platform where
  "sample_platform =
     \<lparr>URL_pathname = map_of
        [(str ''https://host/path/report.pdf?x=1#y'', str ''/path/report.pdf''),
         (str ''https://host/dir/%20name.pdf'', str ''/dir/%20name.pdf''),
         (str ''https://host/dir/100%.pdf'', str ''/dir/100%.pdf''),
         (str ''https://host/dir/'', str ''/dir/''),
         (str ''https://a/x.pdf'', str ''/x.pdf''),
         (str ''https://b/y.pdf'', str ''/y.pdf''),
         (str ''https://c/z.pdf'', str ''/z.pdf'')],
      decodeURIComponent =
        (\<lambda>s. if s = str ''%20name.pdf'' then Some (str '' name.pdf'')
             else if 0x25 \<in> set s then None else Some s)\<rparr>"

definition sample_uuid :: "nat \<Rightarrow> jsstring" where
  "sample_uuid k = str ''id-'' @ number_toString k"

text \<open>
  A task list of three new tasks; a network in which the second URL answers 404 and the
  others answer 200 with a body; an inspector that counts pages. The bytes are modelled by
  a number.
\<close>

definition sample_tasks :: "PdfTask list" where
  "sample_tasks =
     [\<lparr>id_t = str ''id-0'', url = str ''https://a/x.pdf'', fileName = str ''x.pdf'',
       pageCount = None, status = IDLE, error = None\<rparr>,
      \<lparr>id_t = str ''id-1'', url = str ''https://b/y.pdf'', fileName = str ''y.pdf'',
       pageCount = None, status = IDLE, error = None\<rparr>,
      \<lparr>id_t = str ''id-2'', url = str ''https://c/z.pdf'', fileName = str ''z.pdf'',
       pageCount = None, status = IDLE, error = None\<rparr>]"

definition sample_fetch :: "nat \<Rightarrow> jsstring \<Rightarrow> nat fetch_result" where
  "sample_fetch i u =
     (if u = str ''https://b/y.pdf'' then Response False 404 (Inr 0)
      else Response True 200 (Inr (length u)))"

definition sample_pages :: "nat \<Rightarrow> nat \<Rightarrow> jsstring + nat" where
  "sample_pages i blob = Inr (blob + 2)"

text \<open>A task list after a run, with one task completed and one failed, and a network that has recovered.\<close>

definition sample_rerun_tasks :: "PdfTask list" where
  "sample_rerun_tasks =
     [\<lparr>id_t = str ''id-0'', url = str ''https://a/x.pdf'', fileName = str ''x.pdf'',
       pageCount = Some 3, status = COMPLETED, error = None\<rparr>,
      \<lparr>id_t = str ''id-1'', url = str ''https://b/y.pdf'', fileName = str ''y.pdf'',
       pageCount = None, status = FAILED, error = Some (str ''HTTP 404: Failed to download'')\<rparr>]"

definition sample_fetch_ok :: "nat \<Rightarrow> jsstring \<Rightarrow> nat fetch_result" where
  "sample_fetch_ok i u = Response True 200 (Inr (length u))"

text \<open>
  A history of the component: two tasks are added, a run starts, the first fetch returns a
  body, a third task is added while the first is analysed (\<open>sample_midrun\<close>); then the
  page count arrives and the second fetch answers 404 (\<open>sample_late\<close>).
\<close>

definition sample_uuid_later :: "nat \<Rightarrow> jsstring" where
  "sample_uuid_later k = str ''id-'' @ number_toString (k + 2)"

definition sample_snapshot :: "PdfTask list" where
  "sample_snapshot =
     [\<lparr>id_t = str ''id-0'', url = str ''https://a/x.pdf'', fileName = str ''x.pdf'',
       pageCount = None, status = IDLE, error = None\<rparr>,
      \<lparr>id_t = str ''id-1'', url = str ''https://b/y.pdf'', fileName = str ''y.pdf'',
       pageCount = None, status = IDLE, error = None\<rparr>]"

definition sample_events :: "nat event list" where
  "sample_events =
     [ProcessUrls sample_uuid [str ''https://a/x.pdf'', str ''not-a-url'', str ''https://b/y.pdf''],
      RunTasks,
      Resume,
      FetchSettled (Response True 200 (Inr 15)),
      ProcessUrls sample_uuid_later [str ''https://c/z.pdf'']]"

definition sample_midrun :: "nat app" where
  "sample_midrun =
     \<lparr>tasks =
        [\<lparr>id_t = str ''id-0'', url = str ''https://a/x.pdf'', fileName = str ''x.pdf'',
          pageCount = None, status = ANALYZING, error = None\<rparr>,
         \<lparr>id_t = str ''id-1'', url = str ''https://b/y.pdf'', fileName = str ''y.pdf'',
          pageCount = None, status = IDLE, error = None\<rparr>,
         \<lparr>id_t = str ''id-2'', url = str ''https://c/z.pdf'', fileName = str ''z.pdf'',
          pageCount = None, status = IDLE, error = None\<rparr>],
      isProcessing = True,
      ctl = AwaitPageCount sample_snapshot 0 15\<rparr>"

definition sample_events_later :: "nat event list" where
  "sample_events_later =
     [PageCountSettled (Inr 17),
      Resume,
      FetchSettled (Response False 404 (Inr 0))]"

definition sample_late :: "nat app" where
  "sample_late =
     \<lparr>tasks =
        [\<lparr>id_t = str ''id-0'', url = str ''https://a/x.pdf'', fileName = str ''x.pdf'',
          pageCount = Some 17, status = COMPLETED, error = None\<rparr>,
         \<lparr>id_t = str ''id-1'', url = str ''https://b/y.pdf'', fileName = str ''y.pdf'',
          pageCount = None, status = FAILED, error = Some (str ''HTTP 404: Failed to download'')\<rparr>,
         \<lparr>id_t = str ''id-2'', url = str ''https://c/z.pdf'', fileName = str ''z.pdf'',
          pageCount = None, status = IDLE, error = None\<rparr>],
      isProcessing = True,
      ctl = AtLoop sample_snapshot 2\<rparr>"

section \<open>Properties of the string functions\<close>

declare run_loop.simps [simp del]
declare number_toString.simps [simp del]

text \<open>\<open>number_toString\<close> writes its argument in decimal digits.\<close>

lemma unat_digit: "k < 10 \<Longrightarrow> unat (word_of_nat (48 + k) :: 16 word) = 48 + k"
  by (simp only: unat_of_nat) simp

lemma digit_range:
  "k < 10 \<Longrightarrow> (0x30 :: 16 word) \<le> word_of_nat (48 + k) \<and> (word_of_nat (48 + k) :: 16 word) \<le> 0x39"
  by (simp only: word_le_nat_alt unat_digit) simp

lemma number_toString_decimal:
  "foldl (\<lambda>a d. 10 * a + (unat d - 48)) 0 (number_toString n) = n \<and>
   (\<forall>d \<in> set (number_toString n). 0x30 \<le> d \<and> d \<le> 0x39)"
proof (induction n rule: number_toString.induct)
  case (1 n)
  show ?case
  proof (cases "n < 10")
    case True
    have s: "number_toString n = [word_of_nat (48 + n)]"
      using True by (subst number_toString.simps) simp
    show ?thesis
      unfolding s using unat_digit[OF True] digit_range[OF True] by (simp del: of_nat_add)
  next
    case False
    have s: "number_toString n = number_toString (n div 10) @ [word_of_nat (48 + n mod 10)]"
      using False by (subst number_toString.simps) simp
    have m: "n mod 10 < 10" by simp
    from False "1.IH" have IH:
      "foldl (\<lambda>a d. 10 * a + (unat d - 48)) 0 (number_toString (n div 10)) = n div 10"
      "\<forall>d \<in> set (number_toString (n div 10)). 0x30 \<le> d \<and> d \<le> 0x39"
      by simp_all
    show ?thesis
      unfolding s using IH unat_digit[OF m] digit_range[OF m] by (simp del: of_nat_add)
  qed
qed

lemma number_toString_not_Nil: "number_toString n \<noteq> []"
  by (subst number_toString.simps) simp

lemma digit_zero_iff: "k < 10 \<Longrightarrow> (word_of_nat (48 + k) :: 16 word) = 0x30 \<longleftrightarrow> k = 0"
proof -
  assume k: "k < 10"
  have "(word_of_nat (48 + k) :: 16 word) = 0x30 \<longleftrightarrow> unat (word_of_nat (48 + k) :: 16 word) = unat (0x30 :: 16 word)"
    by (simp only: word_unat_eq_iff)
  also have "\<dots> \<longleftrightarrow> k = 0"
    by (simp only: unat_digit[OF k]) simp
  finally show ?thesis .
qed

lemma hd_number_toString: "0 < n \<Longrightarrow> hd (number_toString n) \<noteq> 0x30"
proof (induction n rule: number_toString.induct)
  case (1 n)
  show ?case
  proof (cases "n < 10")
    case True
    have s: "number_toString n = [word_of_nat (48 + n)]"
      using True by (subst number_toString.simps) simp
    show ?thesis
      unfolding s using digit_zero_iff[OF True] "1.prems" by (simp del: of_nat_add)
  next
    case False
    have s: "number_toString n = number_toString (n div 10) @ [word_of_nat (48 + n mod 10)]"
      using False by (subst number_toString.simps) simp
    from False have "0 < n div 10" by simp
    with False "1.IH" have "hd (number_toString (n div 10)) \<noteq> 0x30"
      by simp
    then show ?thesis
      unfolding s by (simp add: number_toString_not_Nil)
  qed
qed

lemma number_toString_zero: "number_toString 0 = [0x30]"
  by (subst number_toString.simps) simp

lemma number_toString_is_decimal:
  "is_decimal (number_toString n) \<and> decimal_value (number_toString n) = n"
proof -
  have "hd (number_toString n) = 0x30 \<longrightarrow> number_toString n = [0x30]"
    using hd_number_toString[of n] number_toString_zero by (cases "n = 0") auto
  with number_toString_decimal[of n] number_toString_not_Nil[of n] show ?thesis
    by (simp add: is_decimal_def decimal_value_def)
qed

lemma http_error_format:
  "\<exists>digits. is_decimal digits \<and> decimal_value digits = code \<and>
     http_error code = str ''HTTP '' @ digits @ str '': Failed to download''"
  using number_toString_is_decimal[of code] unfolding http_error_def by blast

lemma decimal_value_snoc:
  "decimal_value (xs @ [d]) = 10 * decimal_value xs + (unat d - 48)"
  by (simp add: decimal_value_def)

lemma foldl_decimal_ge: "a \<le> foldl (\<lambda>a d. 10 * a + (unat (d :: 16 word) - 48)) a xs"
proof (induction xs arbitrary: a)
  case Nil
  show ?case by simp
next
  case (Cons x xs)
  have "a \<le> 10 * a + (unat x - 48)" by simp
  also have "\<dots> \<le> foldl (\<lambda>a d. 10 * a + (unat d - 48)) (10 * a + (unat x - 48)) xs"
    by (rule Cons.IH)
  finally show ?case by simp
qed

lemma digit_back:
  assumes "(0x30 :: 16 word) \<le> d" and "d \<le> 0x39"
  shows "unat d - 48 < 10" and "word_of_nat (48 + (unat d - 48)) = d" and "(d = 0x30) = (unat d - 48 = 0)"
proof -
  from assms have r: "48 \<le> unat d" "unat d \<le> 57"
    by (simp_all add: word_le_nat_alt)
  then show "unat d - 48 < 10" by simp
  from r have "48 + (unat d - 48) = unat d" by simp
  then show "word_of_nat (48 + (unat d - 48)) = d"
    by (simp only: of_nat_unat) simp
  have "(d = 0x30) = (unat d = unat (0x30 :: 16 word))"
    by (simp only: word_unat_eq_iff)
  also have "\<dots> = (unat d - 48 = 0)"
    using r by simp
  finally show "(d = 0x30) = (unat d - 48 = 0)" .
qed

lemma decimal_value_pos:
  assumes "s \<noteq> []" and "\<forall>d \<in> set s. 0x30 \<le> d \<and> d \<le> 0x39" and "hd s \<noteq> 0x30"
  shows "0 < decimal_value s"
proof -
  from assms(1) obtain d xs where s: "s = d # xs" by (cases s) auto
  with assms have "0 < unat d - 48"
    using digit_back(3)[of d] by auto
  also have "unat d - 48 \<le> foldl (\<lambda>a d. 10 * a + (unat d - 48)) (unat d - 48) xs"
    by (rule foldl_decimal_ge)
  finally show ?thesis
    by (simp add: s decimal_value_def)
qed

lemma number_toString_decimal_value:
  "is_decimal s \<Longrightarrow> number_toString (decimal_value s) = s"
proof (induction s rule: rev_induct)
  case Nil
  then show ?case by (simp add: is_decimal_def)
next
  case (snoc d xs)
  from snoc.prems have dr: "0x30 \<le> d" "d \<le> 0x39"
    and all: "\<forall>x \<in> set xs. 0x30 \<le> x \<and> x \<le> 0x39"
    and hd0: "hd (xs @ [d]) = 0x30 \<longrightarrow> xs @ [d] = [0x30]"
    by (simp_all add: is_decimal_def)
  note k = digit_back[OF dr]
  show ?case
  proof (cases "xs = []")
    case True
    then have "decimal_value (xs @ [d]) = unat d - 48"
      by (simp add: decimal_value_def)
    then show ?thesis
      using True k(1,2) by (subst number_toString.simps) (simp del: of_nat_add)
  next
    case False
    with hd0 have nz: "hd xs \<noteq> 0x30" by auto
    with False all have "is_decimal xs"
      by (simp add: is_decimal_def)
    then have IH: "number_toString (decimal_value xs) = xs"
      by (rule snoc.IH)
    have pos: "0 < decimal_value xs"
      using False all nz by (rule decimal_value_pos)
    let ?n = "decimal_value (xs @ [d])"
    have n: "?n = 10 * decimal_value xs + (unat d - 48)"
      by (rule decimal_value_snoc)
    with pos have ge: "\<not> ?n < 10" by simp
    from n k(1) have dv: "?n div 10 = decimal_value xs" and md: "?n mod 10 = unat d - 48"
      by simp_all
    have "number_toString ?n = number_toString (?n div 10) @ [word_of_nat (48 + ?n mod 10)]"
      using ge by (subst number_toString.simps) simp
    then show ?thesis
      by (simp only: dv md IH k(2))
  qed
qed

lemma after_last_Cons:
  "rev (takeWhile (\<lambda>y. y \<noteq> c) (rev (x # xs))) =
     (if c \<in> set xs then rev (takeWhile (\<lambda>y. y \<noteq> c) (rev xs))
      else if x = c then xs else x # xs)"
  by (auto simp: takeWhile_append takeWhile_eq_all_conv)

lemma length_after_last:
  "c \<in> set xs \<Longrightarrow> length (takeWhile (\<lambda>y. y \<noteq> c) (rev xs)) < length xs"
  using length_takeWhile_le[of "\<lambda>y. y \<noteq> c" "rev xs"]
    takeWhile_eq_all_conv[of "\<lambda>y. y \<noteq> c" "rev xs"]
  by (metis le_neq_implies_less length_rev set_rev takeWhile_eq_take take_all_iff order_refl)

lemma lastIndexOf_from_eq:
  "lastIndexOf_from xs c k found =
     (if c \<in> set xs
      then int (k + length xs - 1 - length (takeWhile (\<lambda>x. x \<noteq> c) (rev xs)))
      else found)"
proof (induction xs arbitrary: k found)
  case Nil
  show ?case by simp
next
  case (Cons x xs)
  show ?case
  proof (cases "c \<in> set xs")
    case True
    then have "takeWhile (\<lambda>x. x \<noteq> c) (rev xs @ [x]) = takeWhile (\<lambda>x. x \<noteq> c) (rev xs)"
      by (auto simp: takeWhile_append)
    with True show ?thesis by (simp add: Cons.IH)
  next
    case False
    then have "takeWhile (\<lambda>x. x \<noteq> c) (rev xs @ [x]) = rev xs @ takeWhile (\<lambda>x. x \<noteq> c) [x]"
      by (auto simp: takeWhile_append)
    with False show ?thesis by (auto simp add: Cons.IH)
  qed
qed

lemma lastIndexOf_absent: "c \<notin> set s \<Longrightarrow> lastIndexOf s c = - 1"
  by (simp add: lastIndexOf_def lastIndexOf_from_eq)

lemma substring_lastIndexOf:
  "substring s (lastIndexOf s c + 1) = rev (takeWhile (\<lambda>x. x \<noteq> c) (rev s))"
proof (cases "c \<in> set s")
  case False
  then have "takeWhile (\<lambda>x. x \<noteq> c) (rev s) = rev s"
    by (intro takeWhile_eq_all_conv[THEN iffD2]) auto
  then have A: "rev (takeWhile (\<lambda>x. x \<noteq> c) (rev s)) = s"
    by (simp only: rev_rev_ident)
  have B: "substring s (lastIndexOf s c + 1) = s"
    by (simp add: substring_def lastIndexOf_absent[OF False])
  show ?thesis
    by (rule trans[OF B A[symmetric]])
next
  case True
  let ?n = "length (takeWhile (\<lambda>x. x \<noteq> c) (rev s))"
  have lt: "?n < length s"
    using True by (rule length_after_last)
  have idx: "lastIndexOf s c + 1 = int (length s - ?n)"
    using True lt by (simp add: lastIndexOf_def lastIndexOf_from_eq)
  have C: "substring s (lastIndexOf s c + 1) = drop (length s - ?n) s"
    unfolding idx by (simp add: substring_def)
  have D: "drop (length s - ?n) s = rev (take ?n (rev s))"
    using lt by (simp add: take_rev)
  have E: "take ?n (rev s) = takeWhile (\<lambda>x. x \<noteq> c) (rev s)"
    by (rule takeWhile_eq_take[symmetric])
  show ?thesis
    by (simp only: C D E)
qed

lemma split_not_Nil: "split s c \<noteq> []"
  by (induction s) (auto split: list.splits)

lemma hd_split: "hd (split s c) = takeWhile (\<lambda>x. x \<noteq> c) s"
  by (induction s) (auto split: list.splits simp: split_not_Nil)

lemma length_split: "length (split s c) = Suc (length (filter (\<lambda>x. x = c) s))"
  by (induction s) (auto split: list.splits simp: split_not_Nil)

lemma split_single: "c \<notin> set s \<Longrightarrow> split s c = [s]"
  by (induction s) (auto split: list.splits)

lemma last_split: "last (split s c) = rev (takeWhile (\<lambda>x. x \<noteq> c) (rev s))"
proof (induction s)
  case Nil
  show ?case by simp
next
  case (Cons x xs)
  show ?case
  proof (cases "c \<in> set xs")
    case True
    then have "length (split xs c) \<ge> 2"
      by (auto simp: length_split filter_empty_conv Suc_le_eq)
    then obtain p q ps where "split xs c = p # q # ps"
      by (cases "split xs c"; cases "tl (split xs c)") auto
    with True Cons.IH show ?thesis
      unfolding after_last_Cons by (auto split: list.splits)
  next
    case False
    with split_single[OF False] show ?thesis
      unfolding after_last_Cons by auto
  qed
qed

lemma rev_dropWhile_takeWhile:
  "xs = rev (dropWhile P (rev xs)) @ rev (takeWhile P (rev xs))"
proof -
  have "rev xs = takeWhile P (rev xs) @ dropWhile P (rev xs)"
    by (rule takeWhile_dropWhile_id[symmetric])
  then have "rev (rev xs) = rev (takeWhile P (rev xs) @ dropWhile P (rev xs))"
    by (rule arg_cong)
  then show ?thesis
    by (simp only: rev_rev_ident rev_append)
qed

lemma dropWhile_trim:
  "dropWhile isWhiteSpace s =
     trim s @ rev (takeWhile isWhiteSpace (rev (dropWhile isWhiteSpace s)))"
  unfolding trim_def by (rule rev_dropWhile_takeWhile)

lemma trim_decompose:
  "\<exists>l r. s = l @ trim s @ r \<and> (\<forall>c\<in>set l. isWhiteSpace c) \<and> (\<forall>c\<in>set r. isWhiteSpace c)"
proof -
  let ?l = "takeWhile isWhiteSpace s"
  let ?r = "rev (takeWhile isWhiteSpace (rev (dropWhile isWhiteSpace s)))"
  have "s = ?l @ dropWhile isWhiteSpace s"
    by (rule takeWhile_dropWhile_id[symmetric])
  also have "dropWhile isWhiteSpace s = trim s @ ?r"
    by (rule dropWhile_trim)
  finally have "s = ?l @ trim s @ ?r" .
  moreover have "\<forall>c\<in>set ?l. isWhiteSpace c"
    by (auto dest: set_takeWhileD)
  moreover have "\<forall>c\<in>set ?r. isWhiteSpace c"
    by (auto dest: set_takeWhileD)
  ultimately show ?thesis by blast
qed

lemma trim_last: "trim s \<noteq> [] \<Longrightarrow> \<not> isWhiteSpace (last (trim s))"
  by (simp add: trim_def last_rev hd_dropWhile)

lemma trim_hd:
  assumes "trim s \<noteq> []"
  shows "\<not> isWhiteSpace (hd (trim s))"
proof -
  let ?d = "dropWhile isWhiteSpace s"
  have d: "?d = trim s @ rev (takeWhile isWhiteSpace (rev ?d))"
    by (rule dropWhile_trim)
  from assms have "hd (trim s @ rev (takeWhile isWhiteSpace (rev ?d))) = hd (trim s)"
    by (rule hd_append2)
  with d have "hd ?d = hd (trim s)"
    by (simp only:)
  moreover have "?d \<noteq> []"
    using d assms by (metis append_is_Nil_conv)
  then have "\<not> isWhiteSpace (hd ?d)"
    by (rule hd_dropWhile)
  ultimately show ?thesis by simp
qed

lemma dropWhile_all_iff: "(\<forall>x\<in>set (dropWhile P xs). P x) \<longleftrightarrow> (\<forall>x\<in>set xs. P x)"
  by (induction xs) auto

lemma trim_Nil_iff: "trim s = [] \<longleftrightarrow> (\<forall>c\<in>set s. isWhiteSpace c)"
  by (simp add: trim_def dropWhile_eq_Nil_conv dropWhile_all_iff)

lemma startsWith_Nil: "p \<noteq> [] \<Longrightarrow> \<not> startsWith [] p"
  by (auto simp: startsWith_def)

lemma validUrls_eq: "validUrls urls = filter has_allowed_scheme (map trim urls)"
  unfolding validUrls_def
  by (rule filter_cong) (auto simp: has_allowed_scheme_def startsWith_def str_def)

lemma processUrls_eq:
  "processUrls pf uuidv4 urls prev =
     prev @ map (\<lambda>(k, u). newTask pf (uuidv4 k) u)
              (enumerate 0 (filter has_allowed_scheme (map trim urls)))"
  by (cases "filter has_allowed_scheme (map trim urls) = []")
    (simp_all add: processUrls_def validUrls_eq filter_map)

lemma length_processUrls:
  "length (processUrls pf uuidv4 urls prev) =
     length prev + length (filter has_allowed_scheme (map trim urls))"
  by (simp add: processUrls_eq)

lemma processUrls_nth_old:
  "j < length prev \<Longrightarrow> processUrls pf uuidv4 urls prev ! j = prev ! j"
  by (simp add: processUrls_eq nth_append)

lemma processUrls_nth_new:
  "k < length (filter has_allowed_scheme (map trim urls)) \<Longrightarrow>
     processUrls pf uuidv4 urls prev ! (length prev + k) =
       newTask pf (uuidv4 k) (filter has_allowed_scheme (map trim urls) ! k)"
  by (simp add: processUrls_eq nth_append nth_enumerate_eq)

lemma url_newTask_enumerate:
  "map (\<lambda>(k, u). url (newTask pf (g k) u)) (enumerate n xs) = xs"
  by (induction xs arbitrary: n) (simp_all add: newTask_def)

lemma url_new_tasks:
  "map url (drop (length prev) (processUrls pf uuidv4 urls prev)) =
     filter has_allowed_scheme (map trim urls)"
  using url_newTask_enumerate[of pf uuidv4 0 "filter has_allowed_scheme (map trim urls)"]
  by (simp add: processUrls_eq comp_def case_prod_unfold)

section \<open>getFileNameFromUrl\<close>

lemma takeWhile_twice:
  "takeWhile P (takeWhile Q xs) = takeWhile (\<lambda>x. Q x \<and> P x) xs"
  by (induction xs) auto

lemma fileName_try_eq:
  "fileName_try pf u =
     (case URL_pathname pf u of
        None \<Rightarrow> None
      | Some pathname \<Rightarrow>
          (case decodeURIComponent pf (strip_query_fragment (last_path_segment pathname)) of
             None \<Rightarrow> None
           | Some decoded \<Rightarrow> Some (if decoded = [] then document_pdf else decoded)))"
proof (cases "URL_pathname pf u")
  case None
  then show ?thesis by (simp add: fileName_try_def)
next
  case (Some pathname)
  let ?f = "substring pathname (lastIndexOf pathname 0x2F + 1)"
  have seg: "?f = last_path_segment pathname"
    by (simp add: last_path_segment_def last_split substring_lastIndexOf)
  obtain a as where a: "split ?f 0x3F = a # as"
    using split_not_Nil[of ?f "0x3F"] by (cases "split ?f 0x3F") auto
  obtain b bs where b: "split a 0x23 = b # bs"
    using split_not_Nil[of a "0x23"] by (cases "split a 0x23") auto
  have "a = takeWhile (\<lambda>x. x \<noteq> 0x3F) ?f"
    using hd_split[of ?f "0x3F"] a by simp
  moreover have "b = takeWhile (\<lambda>x. x \<noteq> 0x23) a"
    using hd_split[of a "0x23"] b by simp
  ultimately have "b = strip_query_fragment (last_path_segment pathname)"
    by (simp add: strip_query_fragment_def takeWhile_twice seg)
  with Some a b show ?thesis
    by (simp add: fileName_try_def Let_def)
qed

text \<open>
  Claim C8. For every URL string, \<^verbatim>\<open>getFileNameFromUrl\<close> returns what the specification
  describes: the last segment of the URL's path with query and fragment stripped and
  percent-decoded, and \<^verbatim>\<open>document.pdf\<close> when the URL does not parse, when the segment does
  not decode, or when the decoded name is empty.
\<close>

theorem getFileNameFromUrl_displayName:
  "getFileNameFromUrl pf u = spec_displayName pf u"
  by (simp add: getFileNameFromUrl_def spec_displayName_def fileName_try_eq document_pdf_def
      split: option.splits)

theorem getFileNameFromUrl_displayName_witness:
  "getFileNameFromUrl sample_platform (str ''https://host/path/report.pdf?x=1#y'') = str ''report.pdf'' \<and>
   getFileNameFromUrl sample_platform (str ''https://host/dir/%20name.pdf'') = str '' name.pdf'' \<and>
   getFileNameFromUrl sample_platform (str ''https://host/dir/100%.pdf'') = str ''document.pdf'' \<and>
   getFileNameFromUrl sample_platform (str ''https://host/dir/'') = str ''document.pdf'' \<and>
   getFileNameFromUrl sample_platform (str ''not-a-url'') = str ''document.pdf''"
  unfolding getFileNameFromUrl_displayName
  by (simp add: spec_displayName_def sample_platform_def last_path_segment_def
      strip_query_fragment_def str_def)

section \<open>processUrls\<close>

text \<open>
  Claim C7 as it is written, that every string which does not itself start with an allowed
  prefix is dropped, fails: a string with a leading blank does not start with one, and
  \<^verbatim>\<open>processUrls\<close> still makes a task of it.
\<close>

theorem processUrls_drops_every_other_counterexample:
  "\<not> has_allowed_scheme (str '' https://a/x.pdf'') \<and>
   map url (processUrls sample_platform sample_uuid [str '' https://a/x.pdf''] []) =
     [str ''https://a/x.pdf'']"
  by (simp add: processUrls_eq has_allowed_scheme_def startsWith_def str_def trim_def
      isWhiteSpace_def newTask_def)

text \<open>
  Claim C7, amended. \<^verbatim>\<open>processUrls\<close> keeps the tasks that are there and appends, in input
  order, one task for each input string whose trimmed form starts with \<^verbatim>\<open>http://\<close> or
  \<^verbatim>\<open>https://\<close>: its id is the next one generated, its file name is derived from its URL,
  its status is \<open>IDLE\<close>, and it has neither page count nor error. Every other string is
  dropped. The three strings of the scenario yield two tasks, both \<open>IDLE\<close>.
\<close>

theorem processUrls_appends:
  "take (length prev) (processUrls pf uuidv4 urls prev) = prev \<and>
   map url (drop (length prev) (processUrls pf uuidv4 urls prev)) =
     filter has_allowed_scheme (map trim urls) \<and>
   (\<forall>k < length (filter has_allowed_scheme (map trim urls)).
      id_t (processUrls pf uuidv4 urls prev ! (length prev + k)) = uuidv4 k \<and>
      fileName (processUrls pf uuidv4 urls prev ! (length prev + k)) =
        getFileNameFromUrl pf (filter has_allowed_scheme (map trim urls) ! k) \<and>
      status (processUrls pf uuidv4 urls prev ! (length prev + k)) = IDLE \<and>
      pageCount (processUrls pf uuidv4 urls prev ! (length prev + k)) = None \<and>
      error (processUrls pf uuidv4 urls prev ! (length prev + k)) = None) \<and>
   map status (processUrls pf uuidv4
      [str ''https://a/x.pdf'', str ''not-a-url'', str ''https://b/y.pdf''] []) = [IDLE, IDLE]"
proof (intro conjI allI impI)
  show "take (length prev) (processUrls pf uuidv4 urls prev) = prev"
    by (simp add: processUrls_eq)
  show "map url (drop (length prev) (processUrls pf uuidv4 urls prev)) =
     filter has_allowed_scheme (map trim urls)"
    by (rule url_new_tasks)
  show "map status (processUrls pf uuidv4
      [str ''https://a/x.pdf'', str ''not-a-url'', str ''https://b/y.pdf''] []) = [IDLE, IDLE]"
    by (simp add: processUrls_eq has_allowed_scheme_def startsWith_def str_def trim_def
      isWhiteSpace_def newTask_def)
qed (simp_all add: processUrls_nth_new newTask_def)

theorem processUrls_appends_witness:
  "map url (drop 1 (processUrls sample_platform sample_uuid
     [str ''https://a/x.pdf'', str ''not-a-url'', str '' https://b/y.pdf'']
     [\<lparr>id_t = str ''id-7'', url = str ''https://c/z.pdf'', fileName = str ''z.pdf'',
       pageCount = Some 3, status = COMPLETED, error = None\<rparr>])) =
     [str ''https://a/x.pdf'', str ''https://b/y.pdf''] \<and>
   processUrls sample_platform sample_uuid
     [str ''https://a/x.pdf'', str ''not-a-url'', str '' https://b/y.pdf'']
     [\<lparr>id_t = str ''id-7'', url = str ''https://c/z.pdf'', fileName = str ''z.pdf'',
       pageCount = Some 3, status = COMPLETED, error = None\<rparr>] ! 2 =
     \<lparr>id_t = str ''id-1'', url = str ''https://b/y.pdf'', fileName = str ''y.pdf'',
       pageCount = None, status = IDLE, error = None\<rparr>"
  using processUrls_appends[of
     "[\<lparr>id_t = str ''id-7'', url = str ''https://c/z.pdf'', fileName = str ''z.pdf'',
       pageCount = Some 3, status = COMPLETED, error = None\<rparr>]"
     sample_platform sample_uuid
     "[str ''https://a/x.pdf'', str ''not-a-url'', str '' https://b/y.pdf'']"]
  by (simp add: processUrls_eq has_allowed_scheme_def startsWith_def str_def trim_def
      isWhiteSpace_def newTask_def sample_uuid_def number_toString.simps
      getFileNameFromUrl_def fileName_try_eq
      sample_platform_def last_path_segment_def strip_query_fragment_def)

text \<open>
  Claim C10. The URL of every task \<^verbatim>\<open>processUrls\<close> creates is the trimmed form of an input
  string, and that form starts with an allowed prefix; strings that are empty or consist
  of white space only change nothing; trimming removes white space at both ends and
  nothing else; and for the input \<^verbatim>\<open>"  https://a/x.pdf  "\<close> the task's URL differs from the
  input.
\<close>

theorem processUrls_trims:
  "(\<forall>t \<in> set (drop (length prev) (processUrls pf uuidv4 urls prev)).
      \<exists>u \<in> set urls. url t = trim u \<and> has_allowed_scheme (trim u)) \<and>
   processUrls pf uuidv4 (filter (\<lambda>u. trim u \<noteq> []) urls) prev = processUrls pf uuidv4 urls prev \<and>
   (trim u = [] \<longleftrightarrow> (\<forall>c \<in> set u. isWhiteSpace c)) \<and>
   (\<exists>l r. u = l @ trim u @ r \<and> (\<forall>c \<in> set l. isWhiteSpace c) \<and> (\<forall>c \<in> set r. isWhiteSpace c)) \<and>
   (trim u \<noteq> [] \<longrightarrow> \<not> isWhiteSpace (hd (trim u)) \<and> \<not> isWhiteSpace (last (trim u))) \<and>
   map url (processUrls pf uuidv4 [str ''  https://a/x.pdf  ''] []) = [str ''https://a/x.pdf''] \<and>
   str ''https://a/x.pdf'' \<noteq> str ''  https://a/x.pdf  ''"
proof (intro conjI)
  show "\<forall>t \<in> set (drop (length prev) (processUrls pf uuidv4 urls prev)).
      \<exists>u \<in> set urls. url t = trim u \<and> has_allowed_scheme (trim u)"
  proof
    fix t
    assume "t \<in> set (drop (length prev) (processUrls pf uuidv4 urls prev))"
    then have "url t \<in> set (map url (drop (length prev) (processUrls pf uuidv4 urls prev)))"
      by simp
    then have "url t \<in> set (filter has_allowed_scheme (map trim urls))"
      by (simp only: url_new_tasks)
    then show "\<exists>u \<in> set urls. url t = trim u \<and> has_allowed_scheme (trim u)"
      by auto
  qed
  have "filter has_allowed_scheme (map trim (filter (\<lambda>u. trim u \<noteq> []) urls)) =
      filter has_allowed_scheme (map trim urls)"
    by (induction urls) (auto simp: has_allowed_scheme_def startsWith_def str_def)
  then show "processUrls pf uuidv4 (filter (\<lambda>u. trim u \<noteq> []) urls) prev =
      processUrls pf uuidv4 urls prev"
    by (simp only: processUrls_eq)
  show "trim u = [] \<longleftrightarrow> (\<forall>c \<in> set u. isWhiteSpace c)"
    by (rule trim_Nil_iff)
  show "\<exists>l r. u = l @ trim u @ r \<and> (\<forall>c \<in> set l. isWhiteSpace c) \<and> (\<forall>c \<in> set r. isWhiteSpace c)"
    by (rule trim_decompose)
  show "trim u \<noteq> [] \<longrightarrow> \<not> isWhiteSpace (hd (trim u)) \<and> \<not> isWhiteSpace (last (trim u))"
    by (simp add: trim_hd trim_last)
  show "map url (processUrls pf uuidv4 [str ''  https://a/x.pdf  ''] []) = [str ''https://a/x.pdf'']"
    by (simp add: processUrls_eq has_allowed_scheme_def startsWith_def str_def trim_def
      isWhiteSpace_def newTask_def)
  show "str ''https://a/x.pdf'' \<noteq> str ''  https://a/x.pdf  ''"
    by (simp add: str_def)
qed

theorem processUrls_trims_witness:
  "map url (processUrls sample_platform sample_uuid
      [str ''  https://a/x.pdf  '', str ''   '', []] []) = [str ''https://a/x.pdf''] \<and>
   processUrls sample_platform sample_uuid [str ''   '', []] [] = [] \<and>
   trim (str ''   '') = []"
  using processUrls_trims[of "[]" sample_platform sample_uuid
      "[str ''  https://a/x.pdf  '', str ''   '', []]" "str ''   ''"]
  by (simp add: processUrls_eq has_allowed_scheme_def startsWith_def str_def trim_def
      isWhiteSpace_def newTask_def)

section \<open>runTasks: a whole run\<close>

lemma id_t_updates [simp]:
  "id_t (to_downloading t) = id_t t"
  "id_t (to_analyzing t) = id_t t"
  "id_t (to_completed n t) = id_t t"
  "id_t (to_failed m t) = id_t t"
  by (simp_all add: to_downloading_def to_analyzing_def to_completed_def to_failed_def)

lemma id_t_settle [simp]: "id_t (settle r g t) = id_t t"
  by (simp add: settle_def split: sum.splits)

lemma terminal_settle: "terminal (settle r g t)"
  by (simp add: settle_def terminal_def to_failed_def to_completed_def split: sum.splits)

lemma update_task_twice:
  "(\<And>t. id_t (f t) = id_t t) \<Longrightarrow>
     update_task x g (update_task x f prev) = update_task x (\<lambda>t. g (f t)) prev"
  by (simp add: update_task_def)

lemma length_update_task [simp]: "length (update_task x f prev) = length prev"
  by (simp add: update_task_def)

lemma process_task_map:
  "process_task fetch getPageCount k task prev =
     (if status task = COMPLETED then prev
      else update_task (id_t task)
             (\<lambda>t. settle (fetch k (url task)) (getPageCount k) (to_downloading t)) prev)"
  by (simp add: process_task_def settle_def Let_def update_task_twice split: sum.splits)

lemma update_task_nth:
  "j < length prev \<Longrightarrow>
     update_task x f prev ! j = (if id_t (prev ! j) = x then f (prev ! j) else prev ! j)"
  by (simp add: update_task_def)

lemma map_id_t_update_task:
  "(\<And>t. id_t (f t) = id_t t) \<Longrightarrow> map id_t (update_task x f prev) = map id_t prev"
  by (simp add: update_task_def)

lemma update_task_distinct:
  assumes "distinct (map id_t prev)" "i < length prev"
  shows "update_task (id_t (prev ! i)) f prev = prev[i := f (prev ! i)]"
proof (rule nth_equalityI)
  show "length (update_task (id_t (prev ! i)) f prev) = length (prev[i := f (prev ! i)])"
    by simp
next
  fix j
  assume "j < length (update_task (id_t (prev ! i)) f prev)"
  then have j: "j < length prev" by simp
  have "id_t (prev ! j) = id_t (prev ! i) \<longleftrightarrow> j = i"
    using assms j nth_eq_iff_index_eq[of "map id_t prev" j i] by simp
  then show "update_task (id_t (prev ! i)) f prev ! j = prev[i := f (prev ! i)] ! j"
    using j by (simp add: update_task_nth nth_list_update)
qed

lemma length_process_task [simp]:
  "length (process_task fetch getPageCount k task prev) = length prev"
  by (simp add: process_task_map)

lemma map_id_t_process_task [simp]:
  "map id_t (process_task fetch getPageCount k task prev) = map id_t prev"
  by (simp add: process_task_map map_id_t_update_task)

lemma length_run_loop [simp]:
  "length (run_loop fetch getPageCount S i prev) = length prev"
proof (induction fetch getPageCount S i prev rule: run_loop.induct)
  case (1 fetch getPageCount S i prev)
  then show ?case
    by (subst run_loop.simps) simp
qed

lemma nth_map_id_t:
  "map id_t prev = map id_t S \<Longrightarrow> j < length S \<Longrightarrow> id_t (prev ! j) = id_t (S ! j)"
  by (metis length_map nth_map)

lemma process_task_nth:
  "j < length prev \<Longrightarrow>
     process_task fetch getPageCount k task prev ! j =
       (if status task \<noteq> COMPLETED \<and> id_t (prev ! j) = id_t task
        then settle (fetch k (url task)) (getPageCount k) (to_downloading (prev ! j))
        else prev ! j)"
  by (simp add: process_task_map update_task_nth)

lemma run_loop_terminal:
  "map id_t prev = map id_t S \<Longrightarrow>
   (\<forall>j < length S. j < i \<or> status (S ! j) = COMPLETED \<longrightarrow> terminal (prev ! j)) \<Longrightarrow>
   j < length S \<Longrightarrow>
   terminal (run_loop fetch getPageCount S i prev ! j)"
proof (induction fetch getPageCount S i prev rule: run_loop.induct)
  case (1 fetch getPageCount S i prev)
  have len: "length prev = length S"
    using "1.prems"(1) by (metis length_map)
  show ?case
  proof (cases "i < length S")
    case False
    with "1.prems" show ?thesis by (subst run_loop.simps) simp
  next
    case True
    let ?prev' = "process_task fetch getPageCount i (S ! i) prev"
    have ids: "map id_t ?prev' = map id_t S"
      using "1.prems"(1) by simp
    have inv: "\<forall>j < length S. j < Suc i \<or> status (S ! j) = COMPLETED \<longrightarrow> terminal (?prev' ! j)"
    proof (intro allI impI)
      fix k
      assume k: "k < length S" and d: "k < Suc i \<or> status (S ! k) = COMPLETED"
      show "terminal (?prev' ! k)"
      proof (cases "status (S ! i) \<noteq> COMPLETED \<and> id_t (prev ! k) = id_t (S ! i)")
        case True
        then show ?thesis
          using k len by (simp add: process_task_nth terminal_settle)
      next
        case False
        then have same: "?prev' ! k = prev ! k"
          using k len by (auto simp: process_task_nth)
        have "k < i \<or> status (S ! k) = COMPLETED"
        proof (cases "k = i")
          case True
          with False nth_map_id_t[OF "1.prems"(1) k] show ?thesis by simp
        next
          case False
          with d show ?thesis by auto
        qed
        with "1.prems"(2) k have "terminal (prev ! k)" by blast
        with same show ?thesis by simp
      qed
    qed
    have "terminal (run_loop fetch getPageCount S (Suc i) ?prev' ! j)"
      using True ids inv "1.prems"(3) by (rule "1.IH")
    with True show ?thesis by (subst run_loop.simps) simp
  qed
qed

lemma run_loop_nth:
  "distinct (map id_t S) \<Longrightarrow> map id_t prev = map id_t S \<Longrightarrow> j < length S \<Longrightarrow>
   run_loop fetch getPageCount S i prev ! j =
     (if i \<le> j \<and> status (S ! j) \<noteq> COMPLETED
      then settle (fetch j (url (S ! j))) (getPageCount j) (to_downloading (prev ! j))
      else prev ! j)"
proof (induction fetch getPageCount S i prev rule: run_loop.induct)
  case (1 fetch getPageCount S i prev)
  have len: "length prev = length S"
    using "1.prems"(2) by (metis length_map)
  show ?case
  proof (cases "i < length S")
    case False
    with "1.prems" show ?thesis by (subst run_loop.simps) simp
  next
    case True
    let ?prev' = "process_task fetch getPageCount i (S ! i) prev"
    have ids: "map id_t ?prev' = map id_t S"
      using "1.prems"(2) by simp
    have step: "run_loop fetch getPageCount S i prev ! j =
        run_loop fetch getPageCount S (Suc i) ?prev' ! j"
      using True by (subst run_loop.simps) simp
    have IH: "run_loop fetch getPageCount S (Suc i) ?prev' ! j =
        (if Suc i \<le> j \<and> status (S ! j) \<noteq> COMPLETED
         then settle (fetch j (url (S ! j))) (getPageCount j) (to_downloading (?prev' ! j))
         else ?prev' ! j)"
      using True "1.prems"(1) ids "1.prems"(3) by (rule "1.IH")
    have eq: "id_t (prev ! j) = id_t (S ! i) \<longleftrightarrow> j = i"
      using nth_map_id_t[OF "1.prems"(2) "1.prems"(3)] "1.prems"(1,3) True
        nth_eq_iff_index_eq[of "map id_t S" j i] by simp
    have p': "?prev' ! j =
        (if status (S ! i) \<noteq> COMPLETED \<and> j = i
         then settle (fetch i (url (S ! i))) (getPageCount i) (to_downloading (prev ! j))
         else prev ! j)"
      using "1.prems"(3) len eq by (simp add: process_task_nth)
    show ?thesis
      unfolding step IH p' by (cases "j = i") auto
  qed
qed

lemma map_id_t_run_loop [simp]:
  "map id_t (run_loop fetch getPageCount S i prev) = map id_t prev"
proof (induction fetch getPageCount S i prev rule: run_loop.induct)
  case (1 fetch getPageCount S i prev)
  then show ?case
    by (subst run_loop.simps) simp
qed

lemma http_error_404: "http_error 404 = str ''HTTP 404: Failed to download''"
  by (simp add: http_error_def str_def number_toString.simps)

lemma http_error_digits:
  "is_decimal digits \<Longrightarrow> decimal_value digits = code \<Longrightarrow>
     http_error code = str ''HTTP '' @ digits @ str '': Failed to download''"
  using number_toString_decimal_value[of digits] by (simp add: http_error_def)

lemma http_error_503: "http_error 503 = str ''HTTP 503: Failed to download''"
  by (simp add: http_error_def str_def number_toString.simps)

text \<open>
  Claim C1. For every task list and every way the fetches and page counts settle, a run
  returns; it keeps the tasks and their order; every task that was not \<open>COMPLETED\<close> when
  the run started is \<open>COMPLETED\<close> or \<open>FAILED\<close> afterwards, and so is every task of the list;
  and \<^verbatim>\<open>isProcessing\<close> is false afterwards.
\<close>

theorem runTasks_all_terminal:
  "length (tasks (runTasks fetch getPageCount c)) = length (tasks c) \<and>
   map id_t (tasks (runTasks fetch getPageCount c)) = map id_t (tasks c) \<and>
   (\<forall>i < length (tasks c). status (tasks c ! i) \<noteq> COMPLETED \<longrightarrow>
      terminal (tasks (runTasks fetch getPageCount c) ! i)) \<and>
   (\<forall>t \<in> set (tasks (runTasks fetch getPageCount c)). terminal t) \<and>
   \<not> isProcessing (runTasks fetch getPageCount c)"
proof -
  have t: "\<forall>j < length (tasks c).
      terminal (run_loop fetch getPageCount (tasks c) 0 (tasks c) ! j)"
  proof (intro allI impI)
    fix j
    assume "j < length (tasks c)"
    then show "terminal (run_loop fetch getPageCount (tasks c) 0 (tasks c) ! j)"
      by (intro run_loop_terminal) (auto simp: terminal_def)
  qed
  then have "\<forall>t \<in> set (run_loop fetch getPageCount (tasks c) 0 (tasks c)). terminal t"
    by (auto simp: in_set_conv_nth)
  with t show ?thesis
    by (simp add: runTasks_def)
qed

theorem runTasks_all_terminal_witness:
  "map status (tasks (runTasks sample_fetch sample_pages
      \<lparr>tasks = sample_tasks, isProcessing = False, ctl = Stopped\<rparr>)) =
     [COMPLETED, FAILED, COMPLETED] \<and>
   \<not> isProcessing (runTasks sample_fetch sample_pages
      \<lparr>tasks = sample_tasks, isProcessing = False, ctl = Stopped\<rparr>)"
  using runTasks_all_terminal[of sample_fetch sample_pages
      "\<lparr>tasks = sample_tasks, isProcessing = False, ctl = Stopped\<rparr>"]
  by (simp add: runTasks_def run_loop.simps sample_tasks_def sample_fetch_def sample_pages_def
      process_task_def update_task_def to_downloading_def to_analyzing_def to_completed_def
      to_failed_def str_def)

text \<open>
  Claim C4. In a task list with distinct ids, what a run makes of a task that was not
  \<open>COMPLETED\<close> depends on that task's own fetch and page count only, whatever happened to the
  tasks before it: a rejected fetch or a rejected body leaves it \<open>FAILED\<close> with the message of
  the error; a response that is not ok leaves it \<open>FAILED\<close> with the message made of
  \<^verbatim>\<open>HTTP\<close>, a blank, the decimal numeral of the status code and \<^verbatim>\<open>: Failed to download\<close>,
  whatever the status code; a rejected page count leaves it \<open>FAILED\<close> with the message of
  that error; and otherwise it is \<open>COMPLETED\<close> with the page count.
\<close>

theorem runTasks_failure_is_per_task:
  assumes "distinct (map id_t (tasks c))" and "i < length (tasks c)"
    and "status (tasks c ! i) \<noteq> COMPLETED"
  shows
   "(\<forall>message. fetch i (url (tasks c ! i)) = Rejected message \<longrightarrow>
       status (tasks (runTasks fetch getPageCount c) ! i) = FAILED \<and>
       error (tasks (runTasks fetch getPageCount c) ! i) = Some message) \<and>
    (\<forall>code body. fetch i (url (tasks c ! i)) = Response False code body \<longrightarrow>
       status (tasks (runTasks fetch getPageCount c) ! i) = FAILED \<and>
       error (tasks (runTasks fetch getPageCount c) ! i) = Some (http_error code) \<and>
       (\<exists>digits. is_decimal digits \<and> decimal_value digits = code \<and>
          error (tasks (runTasks fetch getPageCount c) ! i) =
            Some (str ''HTTP '' @ digits @ str '': Failed to download'')) \<and>
       (\<forall>digits. is_decimal digits \<and> decimal_value digits = code \<longrightarrow>
          error (tasks (runTasks fetch getPageCount c) ! i) =
            Some (str ''HTTP '' @ digits @ str '': Failed to download''))) \<and>
    (\<forall>code message. fetch i (url (tasks c ! i)) = Response True code (Inl message) \<longrightarrow>
       status (tasks (runTasks fetch getPageCount c) ! i) = FAILED \<and>
       error (tasks (runTasks fetch getPageCount c) ! i) = Some message) \<and>
    (\<forall>code blob message. fetch i (url (tasks c ! i)) = Response True code (Inr blob) \<and>
         getPageCount i blob = Inl message \<longrightarrow>
       status (tasks (runTasks fetch getPageCount c) ! i) = FAILED \<and>
       error (tasks (runTasks fetch getPageCount c) ! i) = Some message) \<and>
    (\<forall>code blob n. fetch i (url (tasks c ! i)) = Response True code (Inr blob) \<and>
         getPageCount i blob = Inr n \<longrightarrow>
       status (tasks (runTasks fetch getPageCount c) ! i) = COMPLETED \<and>
       pageCount (tasks (runTasks fetch getPageCount c) ! i) = Some n \<and>
       error (tasks (runTasks fetch getPageCount c) ! i) = None) \<and>
    http_error 404 = str ''HTTP 404: Failed to download'' \<and>
    http_error 503 = str ''HTTP 503: Failed to download''"
proof -
  have r: "tasks (runTasks fetch getPageCount c) ! i =
      settle (fetch i (url (tasks c ! i))) (getPageCount i) (to_downloading (tasks c ! i))"
    using assms by (simp add: runTasks_def run_loop_nth)
  have f: "\<exists>digits. is_decimal digits \<and> decimal_value digits = code \<and>
      Some (http_error code) = Some (str ''HTTP '' @ digits @ str '': Failed to download'')"
    for code
    using http_error_format[of code] by simp
  have g: "\<forall>digits. is_decimal digits \<and> decimal_value digits = code \<longrightarrow>
      Some (http_error code) = Some (str ''HTTP '' @ digits @ str '': Failed to download'')"
    for code
    by (simp add: http_error_digits)
  show ?thesis
    unfolding r using f g
    by (simp add: settle_def to_failed_def to_completed_def to_analyzing_def to_downloading_def
        http_error_404 http_error_503)
qed

theorem runTasks_failure_is_per_task_witness:
  "status (tasks (runTasks sample_fetch sample_pages
      \<lparr>tasks = sample_tasks, isProcessing = False, ctl = Stopped\<rparr>) ! 1) = FAILED \<and>
   error (tasks (runTasks sample_fetch sample_pages
      \<lparr>tasks = sample_tasks, isProcessing = False, ctl = Stopped\<rparr>) ! 1) =
     Some (str ''HTTP 404: Failed to download'') \<and>
   status (tasks (runTasks sample_fetch sample_pages
      \<lparr>tasks = sample_tasks, isProcessing = False, ctl = Stopped\<rparr>) ! 2) = COMPLETED \<and>
   pageCount (tasks (runTasks sample_fetch sample_pages
      \<lparr>tasks = sample_tasks, isProcessing = False, ctl = Stopped\<rparr>) ! 2) = Some 17"
proof -
  let ?c = "\<lparr>tasks = sample_tasks, isProcessing = False, ctl = Stopped\<rparr> :: nat app"
  have d: "distinct (map id_t (tasks ?c))"
    by (simp add: sample_tasks_def str_def)
  have s1: "status (tasks ?c ! 1) \<noteq> COMPLETED" and s2: "status (tasks ?c ! 2) \<noteq> COMPLETED"
    by (simp_all add: sample_tasks_def)
  have l1: "1 < length (tasks ?c)" and l2: "2 < length (tasks ?c)"
    by (simp_all add: sample_tasks_def)
  have f1: "sample_fetch 1 (url (tasks ?c ! 1)) = Response False 404 (Inr 0)"
    by (simp add: sample_tasks_def sample_fetch_def)
  have f2: "sample_fetch 2 (url (tasks ?c ! 2)) = Response True 200 (Inr 15)"
    by (simp add: sample_tasks_def sample_fetch_def str_def)
  have p2: "sample_pages 2 15 = Inr 17"
    by (simp add: sample_pages_def)
  have dg: "is_decimal (str ''404'') \<and> decimal_value (str ''404'') = 404"
    by (simp add: is_decimal_def decimal_value_def str_def)
  note a = runTasks_failure_is_per_task[OF d l1 s1, of sample_fetch sample_pages]
  note b = runTasks_failure_is_per_task[OF d l2 s2, of sample_fetch sample_pages]
  from a f1 dg have "status (tasks (runTasks sample_fetch sample_pages ?c) ! 1) = FAILED \<and>
       error (tasks (runTasks sample_fetch sample_pages ?c) ! 1) =
         Some (str ''HTTP '' @ str ''404'' @ str '': Failed to download'')"
    by blast
  moreover from b f2 p2 have "status (tasks (runTasks sample_fetch sample_pages ?c) ! 2) = COMPLETED \<and>
       pageCount (tasks (runTasks sample_fetch sample_pages ?c) ! 2) = Some 17"
    by blast
  ultimately show ?thesis
    by (simp add: str_def)
qed

text \<open>
  Claim C3. In a task list with distinct ids, a run leaves a task that was \<open>COMPLETED\<close> when
  it started exactly as it was, and processes a task that was \<open>FAILED\<close> again: the task is
  set to \<open>DOWNLOADING\<close> with its error cleared and taken from there, so that its error
  afterwards is the message of the new failure, or none.
\<close>

theorem runTasks_rerun:
  assumes "distinct (map id_t (tasks c))" and "i < length (tasks c)"
  shows
   "(status (tasks c ! i) = COMPLETED \<longrightarrow>
       tasks (runTasks fetch getPageCount c) ! i = tasks c ! i) \<and>
    (status (tasks c ! i) = FAILED \<longrightarrow>
       tasks (runTasks fetch getPageCount c) ! i =
         settle (fetch i (url (tasks c ! i))) (getPageCount i) (to_downloading (tasks c ! i)) \<and>
       status (to_downloading (tasks c ! i)) = DOWNLOADING \<and>
       error (to_downloading (tasks c ! i)) = None \<and>
       error (tasks (runTasks fetch getPageCount c) ! i) =
         (case download (fetch i (url (tasks c ! i))) of
            Inl message \<Rightarrow> Some message
          | Inr blob \<Rightarrow> (case getPageCount i blob of Inl message \<Rightarrow> Some message | Inr n \<Rightarrow> None)))"
proof -
  have "tasks (runTasks fetch getPageCount c) ! i =
      (if status (tasks c ! i) \<noteq> COMPLETED
       then settle (fetch i (url (tasks c ! i))) (getPageCount i) (to_downloading (tasks c ! i))
       else tasks c ! i)"
    using assms by (simp add: runTasks_def run_loop_nth)
  then show ?thesis
    by (simp add: settle_def to_failed_def to_completed_def to_analyzing_def to_downloading_def
        split: sum.splits)
qed

theorem runTasks_rerun_witness:
  "tasks (runTasks sample_fetch_ok sample_pages
      \<lparr>tasks = sample_rerun_tasks, isProcessing = False, ctl = Stopped\<rparr>) =
     [\<lparr>id_t = str ''id-0'', url = str ''https://a/x.pdf'', fileName = str ''x.pdf'',
       pageCount = Some 3, status = COMPLETED, error = None\<rparr>,
      \<lparr>id_t = str ''id-1'', url = str ''https://b/y.pdf'', fileName = str ''y.pdf'',
       pageCount = Some 17, status = COMPLETED, error = None\<rparr>]"
proof -
  let ?c = "\<lparr>tasks = sample_rerun_tasks, isProcessing = False, ctl = Stopped\<rparr> :: nat app"
  let ?r = "tasks (runTasks sample_fetch_ok sample_pages ?c)"
  have d: "distinct (map id_t (tasks ?c))"
    by (simp add: sample_rerun_tasks_def str_def)
  have l0: "0 < length (tasks ?c)" and l1: "1 < length (tasks ?c)"
    by (simp_all add: sample_rerun_tasks_def)
  have "?r ! 0 = tasks ?c ! 0"
    using runTasks_rerun[OF d l0, of sample_fetch_ok sample_pages]
    by (simp add: sample_rerun_tasks_def)
  moreover have "?r ! 1 =
      settle (sample_fetch_ok 1 (url (tasks ?c ! 1))) (sample_pages 1) (to_downloading (tasks ?c ! 1))"
    using runTasks_rerun[OF d l1, of sample_fetch_ok sample_pages]
    by (simp add: sample_rerun_tasks_def)
  moreover have "length ?r = 2"
    by (simp add: runTasks_def sample_rerun_tasks_def)
  ultimately have "?r = [tasks ?c ! 0,
      settle (sample_fetch_ok 1 (url (tasks ?c ! 1))) (sample_pages 1) (to_downloading (tasks ?c ! 1))]"
    by (cases ?r; cases "tl ?r") auto
  then show ?thesis
    by (simp add: sample_rerun_tasks_def settle_def sample_fetch_ok_def sample_pages_def
        to_downloading_def to_analyzing_def to_completed_def str_def)
qed

section \<open>The invariant of the transition system\<close>

lemma frontier_update_task:
  assumes "distinct (map id_t ts)" and "frontier S i ts" and "i < length S"
  shows "update_task (id_t (S ! i)) f ts = ts[i := f (ts ! i)]"
proof -
  have "i < length ts" and "id_t (ts ! i) = id_t (S ! i)"
    using assms(2,3) by (auto simp: frontier_def)
  with update_task_distinct[OF assms(1), of i f] show ?thesis
    by simp
qed

lemma frontier_update_same:
  assumes "frontier S i ts" and "i < length S" and "id_t v = id_t (S ! i)"
  shows "frontier S i (ts[i := v])"
  using assms unfolding frontier_def
  by (auto simp: nth_list_update)

lemma frontier_advance:
  assumes "frontier S i ts" and "i < length S"
    and "if status (S ! i) = COMPLETED then ts ! i = S ! i else terminal (ts ! i)"
  shows "frontier S (Suc i) ts"
  unfolding frontier_def
proof (intro conjI allI impI)
  fix j
  assume "j < length S" "j < Suc i"
  then show "if status (S ! j) = COMPLETED then ts ! j = S ! j else terminal (ts ! j)"
    using assms by (cases "j = i") (auto simp: frontier_def)
qed (use assms in \<open>auto simp: frontier_def\<close>)

lemma frontier_append:
  assumes "frontier S i ts" and "\<forall>t \<in> set new. untouched t"
  shows "frontier S i (ts @ new)"
  using assms unfolding frontier_def
  by (auto simp: nth_append)

lemma frontier_start: "frontier ts 0 ts"
  by (simp add: frontier_def)

lemma frontier_lengthD: "frontier S i ts \<Longrightarrow> length S \<le> length ts"
  by (simp add: frontier_def)

lemma frontier_not_active:
  assumes "frontier S i ts" and "\<forall>t \<in> set S. \<not> active t" and "j < length ts"
    and "j \<noteq> i \<or> length S \<le> j"
  shows "\<not> active (ts ! j)"
proof (cases "j < length S")
  case False
  with assms(1,3) have "untouched (ts ! j)"
    by (simp add: frontier_def)
  then show ?thesis by (simp add: untouched_def active_def)
next
  case True
  then have S: "\<not> active (S ! j)" using assms(2) by simp
  show ?thesis
  proof (cases "j < i")
    case True
    with \<open>j < length S\<close> assms(1)
    have "if status (S ! j) = COMPLETED then ts ! j = S ! j else terminal (ts ! j)"
      by (simp add: frontier_def)
    with S show ?thesis
      by (auto simp: terminal_def active_def split: if_splits)
  next
    case False
    with assms(4) \<open>j < length S\<close> have "i < j" by auto
    with \<open>j < length S\<close> assms(1) have "ts ! j = S ! j"
      by (simp add: frontier_def)
    with S show ?thesis by simp
  qed
qed

lemma task_inv_to_downloading:
  "task_inv t \<Longrightarrow> status t \<noteq> COMPLETED \<Longrightarrow> task_inv (to_downloading t)"
  by (auto simp: task_inv_def to_downloading_def)

lemma task_inv_to_analyzing:
  "task_inv t \<Longrightarrow> status t = DOWNLOADING \<Longrightarrow> task_inv (to_analyzing t)"
  by (auto simp: task_inv_def to_analyzing_def)

lemma task_inv_to_failed:
  "task_inv t \<Longrightarrow> active t \<Longrightarrow> task_inv (to_failed m t)"
  by (auto simp: task_inv_def to_failed_def active_def)

lemma task_inv_to_completed:
  "task_inv t \<Longrightarrow> status t = ANALYZING \<Longrightarrow> task_inv (to_completed n t)"
  by (auto simp: task_inv_def to_completed_def)

lemma task_inv_newTask: "task_inv (newTask pf i u)"
  by (simp add: task_inv_def newTask_def)

lemma untouched_newTask: "untouched (newTask pf i u)"
  by (simp add: untouched_def newTask_def)

lemma all_list_update:
  "\<forall>t \<in> set ts. P t \<Longrightarrow> P v \<Longrightarrow> \<forall>t \<in> set (ts[i := v]). P t"
  by (metis insert_iff set_update_subset_insert subsetD)

lemma distinct_ids_list_update:
  "distinct (map id_t ts) \<Longrightarrow> i < length ts \<Longrightarrow> id_t v = id_t (ts ! i) \<Longrightarrow>
     distinct (map id_t (ts[i := v]))"
  by (simp add: map_update list_update_same_conv[THEN iffD2])

lemma frontier_next: "frontier S i ts \<Longrightarrow> Suc i < length S \<Longrightarrow> ts ! Suc i = S ! Suc i"
  by (simp add: frontier_def)

lemma ctl_inv_append:
  assumes "ctl_inv k ts" and "\<forall>t \<in> set new. untouched t"
  shows "ctl_inv k (ts @ new)"
proof (cases k)
  case Stopped
  with assms show ?thesis
    by (auto simp: untouched_def active_def)
next
  case (AtLoop S i)
  with assms show ?thesis
    by (auto simp: frontier_append nth_append dest: frontier_lengthD)
next
  case (AwaitFetch S i)
  with assms show ?thesis
    by (auto simp: frontier_append nth_append dest: frontier_lengthD)
next
  case (AwaitPageCount S i b)
  with assms show ?thesis
    by (auto simp: frontier_append nth_append dest: frontier_lengthD)
qed

lemma app_inv_initial: "app_inv initial_app"
  by (simp add: app_inv_def initial_app_def)

lemma step_ProcessUrls_inv:
  assumes "app_inv c" and "step pf (ProcessUrls uuidv4 urls) c = Some c'"
  shows "app_inv c'"
proof -
  let ?new = "map (\<lambda>(k, u). newTask pf (uuidv4 k) u)
      (enumerate 0 (filter has_allowed_scheme (map trim urls)))"
  have ts: "processUrls pf uuidv4 urls (tasks c) = tasks c @ ?new"
    by (rule processUrls_eq)
  have new: "\<forall>t \<in> set ?new. untouched t \<and> task_inv t"
    by (auto simp: untouched_newTask task_inv_newTask)
  from assms(2) have d: "distinct (map id_t (tasks c @ ?new))"
    and c': "c' = c\<lparr>tasks := tasks c @ ?new\<rparr>"
    unfolding ts step.simps by (auto split: if_splits)
  from assms(1) new have "ctl_inv (ctl c) (tasks c @ ?new)"
    unfolding app_inv_def by (intro ctl_inv_append) auto
  with assms(1) d new show ?thesis
    unfolding c' app_inv_def by auto
qed

lemma step_RemoveTask_inv:
  assumes "app_inv c" and "step pf (RemoveTask tid) c = Some c'"
  shows "app_inv c'"
proof -
  from assms(2) have np: "\<not> isProcessing c" and c': "c' = c\<lparr>tasks := removeTask tid (tasks c)\<rparr>"
    by (auto split: if_splits)
  from assms(1) np have "ctl c = Stopped"
    by (simp add: app_inv_def)
  with assms(1) show ?thesis
    unfolding c' app_inv_def removeTask_def by (auto simp: distinct_map_filter)
qed

lemma step_ClearAll_inv:
  assumes "app_inv c" and "step pf ClearAll c = Some c'"
  shows "app_inv c'"
proof -
  from assms(2) have np: "\<not> isProcessing c" and c': "c' = c\<lparr>tasks := []\<rparr>"
    by (auto split: if_splits)
  from assms(1) np have "ctl c = Stopped"
    by (simp add: app_inv_def)
  with assms(1) show ?thesis
    unfolding c' app_inv_def by auto
qed

lemma step_RunTasks_inv:
  assumes "app_inv c" and "step pf RunTasks c = Some c'"
  shows "app_inv c'"
proof -
  from assms(2) have np: "\<not> isProcessing c"
    and c': "c' = c\<lparr>isProcessing := True, ctl := AtLoop (tasks c) 0\<rparr>"
    by (auto split: if_splits)
  from assms(1) np have "ctl c = Stopped"
    by (simp add: app_inv_def)
  with assms(1) show ?thesis
    unfolding c' app_inv_def by (auto simp: frontier_start)
qed

lemma all_not_active:
  assumes "frontier S i ts" and "\<forall>t \<in> set S. \<not> active t" and "length S \<le> i"
  shows "\<forall>t \<in> set ts. \<not> active t"
proof
  fix t
  assume "t \<in> set ts"
  then obtain j where j: "j < length ts" and t: "t = ts ! j"
    by (auto simp: in_set_conv_nth)
  have "j \<noteq> i \<or> length S \<le> j"
    using assms(3) by auto
  with assms(1,2) j show "\<not> active t"
    unfolding t by (rule frontier_not_active)
qed

lemma step_Resume_inv:
  assumes "app_inv c" and "step pf Resume c = Some c'"
  shows "app_inv c'"
proof (cases "ctl c")
  case (AtLoop S i)
  from assms(1) AtLoop have inv:
    "distinct (map id_t (tasks c))" "\<forall>t \<in> set (tasks c). task_inv t" "isProcessing c"
    "i \<le> length S" "\<forall>t \<in> set S. \<not> active t" "frontier S i (tasks c)"
    "i < length S \<longrightarrow> tasks c ! i = S ! i"
    by (simp_all add: app_inv_def)
  consider (finish) "\<not> i < length S"
    | (skip) "i < length S" "status (S ! i) = COMPLETED"
    | (start) "i < length S" "status (S ! i) \<noteq> COMPLETED"
    by blast
  then show ?thesis
  proof cases
    case finish
    with assms(2) AtLoop have c': "c' = c\<lparr>isProcessing := False, ctl := Stopped\<rparr>"
      by simp
    from finish have "length S \<le> i" by simp
    with inv(6,5) have "\<forall>t \<in> set (tasks c). \<not> active t"
      by (rule all_not_active)
    with inv(1,2) show ?thesis
      unfolding c' app_inv_def by simp
  next
    case skip
    with assms(2) AtLoop have c': "c' = c\<lparr>ctl := AtLoop S (Suc i)\<rparr>"
      by simp
    from skip inv(7) have "if status (S ! i) = COMPLETED then tasks c ! i = S ! i
        else terminal (tasks c ! i)"
      by simp
    with inv(6) skip(1) have "frontier S (Suc i) (tasks c)"
      by (rule frontier_advance)
    with inv skip(1) show ?thesis
      unfolding c' app_inv_def by (simp add: frontier_next)
  next
    case start
    let ?ts = "(tasks c)[i := to_downloading (S ! i)]"
    have len: "i < length (tasks c)"
      using start(1) frontier_lengthD[OF inv(6)] by simp
    have same: "tasks c ! i = S ! i"
      using start(1) inv(7) by simp
    have upd: "update_task (id_t (S ! i)) to_downloading (tasks c) = ?ts"
      using frontier_update_task[OF inv(1,6) start(1), of to_downloading] same by simp
    with assms(2) AtLoop start have c': "c' = c\<lparr>tasks := ?ts, ctl := AwaitFetch S i\<rparr>"
      by simp
    have d: "distinct (map id_t ?ts)"
      using inv(1) len same by (intro distinct_ids_list_update) simp_all
    have "task_inv (S ! i)"
      using inv(2) len same by (metis nth_mem)
    then have "task_inv (to_downloading (S ! i))"
      using start(2) by (rule task_inv_to_downloading)
    with inv(2) have t: "\<forall>t \<in> set ?ts. task_inv t"
      by (rule all_list_update)
    have f: "frontier S i ?ts"
      using inv(6) start(1) by (rule frontier_update_same) simp
    from d t f inv(3,5) start len show ?thesis
      unfolding c' app_inv_def by simp
  qed
qed (use assms(2) in simp_all)

lemma step_FetchSettled_inv:
  assumes "app_inv c" and "step pf (FetchSettled r) c = Some c'"
  shows "app_inv c'"
proof (cases "ctl c")
  case (AwaitFetch S i)
  from assms(1) AwaitFetch have inv:
    "distinct (map id_t (tasks c))" "\<forall>t \<in> set (tasks c). task_inv t" "isProcessing c"
    "i < length S" "\<forall>t \<in> set S. \<not> active t" "frontier S i (tasks c)"
    "status (S ! i) \<noteq> COMPLETED" "tasks c ! i = to_downloading (S ! i)"
    by (simp_all add: app_inv_def)
  have len: "i < length (tasks c)"
    using inv(4) frontier_lengthD[OF inv(6)] by simp
  have cur: "task_inv (tasks c ! i)"
    using inv(2) len by (metis nth_mem)
  have st: "status (tasks c ! i) = DOWNLOADING"
    by (simp add: inv(8) to_downloading_def)
  show ?thesis
  proof (cases "download r")
    case (Inl message)
    let ?ts = "(tasks c)[i := to_failed message (tasks c ! i)]"
    have upd: "update_task (id_t (S ! i)) (to_failed message) (tasks c) = ?ts"
      by (rule frontier_update_task[OF inv(1,6,4)])
    with assms(2) AwaitFetch Inl inv(4) have c': "c' = c\<lparr>tasks := ?ts, ctl := AtLoop S (Suc i)\<rparr>"
      by simp
    have d: "distinct (map id_t ?ts)"
      using inv(1) len by (intro distinct_ids_list_update) simp_all
    have "task_inv (to_failed message (tasks c ! i))"
      using cur st by (intro task_inv_to_failed) (simp_all add: active_def)
    with inv(2) have t: "\<forall>t \<in> set ?ts. task_inv t"
      by (rule all_list_update)
    have fi: "frontier S i ?ts"
      using inv(6,4) by (rule frontier_update_same) (simp add: inv(8))
    moreover have "if status (S ! i) = COMPLETED then ?ts ! i = S ! i else terminal (?ts ! i)"
      using inv(7) len by (simp add: terminal_def to_failed_def)
    ultimately have f: "frontier S (Suc i) ?ts"
      using inv(4) by (intro frontier_advance)
    from frontier_next[OF fi] have nx: "Suc i < length S \<longrightarrow> ?ts ! Suc i = S ! Suc i"
      by blast
    from d t f nx inv(3,4,5) show ?thesis
      unfolding c' app_inv_def by simp
  next
    case (Inr blob)
    let ?ts = "(tasks c)[i := to_analyzing (tasks c ! i)]"
    have upd: "update_task (id_t (S ! i)) to_analyzing (tasks c) = ?ts"
      by (rule frontier_update_task[OF inv(1,6,4)])
    with assms(2) AwaitFetch Inr inv(4) have c': "c' = c\<lparr>tasks := ?ts, ctl := AwaitPageCount S i blob\<rparr>"
      by simp
    have d: "distinct (map id_t ?ts)"
      using inv(1) len by (intro distinct_ids_list_update) simp_all
    have "task_inv (to_analyzing (tasks c ! i))"
      using cur st by (rule task_inv_to_analyzing)
    with inv(2) have t: "\<forall>t \<in> set ?ts. task_inv t"
      by (rule all_list_update)
    have f: "frontier S i ?ts"
      using inv(6,4) by (rule frontier_update_same) (simp add: inv(8))
    from d t f inv(3,4,5,7,8) len show ?thesis
      unfolding c' app_inv_def by simp
  qed
qed (use assms(2) in simp_all)

lemma step_PageCountSettled_inv:
  assumes "app_inv c" and "step pf (PageCountSettled r) c = Some c'"
  shows "app_inv c'"
proof (cases "ctl c")
  case (AwaitPageCount S i blob)
  from assms(1) AwaitPageCount have inv:
    "distinct (map id_t (tasks c))" "\<forall>t \<in> set (tasks c). task_inv t" "isProcessing c"
    "i < length S" "\<forall>t \<in> set S. \<not> active t" "frontier S i (tasks c)"
    "status (S ! i) \<noteq> COMPLETED" "tasks c ! i = to_analyzing (to_downloading (S ! i))"
    by (simp_all add: app_inv_def)
  have len: "i < length (tasks c)"
    using inv(4) frontier_lengthD[OF inv(6)] by simp
  have cur: "task_inv (tasks c ! i)"
    using inv(2) len by (metis nth_mem)
  have st: "status (tasks c ! i) = ANALYZING"
    by (simp add: inv(8) to_analyzing_def)
  obtain f where f: "f = (case r of Inl message \<Rightarrow> to_failed message | Inr n \<Rightarrow> to_completed n)"
    by simp
  let ?ts = "(tasks c)[i := f (tasks c ! i)]"
  have idf: "\<And>t. id_t (f t) = id_t t"
    unfolding f by (simp split: sum.splits)
  have upd: "update_task (id_t (S ! i)) f (tasks c) = ?ts"
    by (rule frontier_update_task[OF inv(1,6,4)])
  with assms(2) AwaitPageCount inv(4) have c': "c' = c\<lparr>tasks := ?ts, ctl := AtLoop S (Suc i)\<rparr>"
    unfolding f by (auto split: sum.splits)
  have d: "distinct (map id_t ?ts)"
    using inv(1) len by (intro distinct_ids_list_update) (simp_all add: idf)
  have "task_inv (f (tasks c ! i))"
    unfolding f using cur st
    by (auto split: sum.splits intro: task_inv_to_failed task_inv_to_completed simp: active_def)
  with inv(2) have t: "\<forall>t \<in> set ?ts. task_inv t"
    by (rule all_list_update)
  have fi: "frontier S i ?ts"
    using inv(6,4) by (rule frontier_update_same) (simp add: inv(8) idf)
  moreover have "terminal (f (tasks c ! i))"
    unfolding f by (simp add: terminal_def to_failed_def to_completed_def split: sum.splits)
  then have "if status (S ! i) = COMPLETED then ?ts ! i = S ! i else terminal (?ts ! i)"
    using inv(7) len by simp
  ultimately have fr: "frontier S (Suc i) ?ts"
    using inv(4) by (intro frontier_advance)
  from frontier_next[OF fi] have nx: "Suc i < length S \<longrightarrow> ?ts ! Suc i = S ! Suc i"
    by blast
  from d t fr nx inv(3,4,5) show ?thesis
    unfolding c' app_inv_def by simp
qed (use assms(2) in simp_all)

lemma step_inv: "app_inv c \<Longrightarrow> step pf e c = Some c' \<Longrightarrow> app_inv c'"
  by (cases e)
    (blast intro: step_ProcessUrls_inv step_RemoveTask_inv step_ClearAll_inv step_RunTasks_inv
      step_Resume_inv step_FetchSettled_inv step_PageCountSettled_inv)+

lemma reachable_inv: "reachable pf c \<Longrightarrow> app_inv c"
  by (induction rule: reachable.induct) (auto intro: app_inv_initial step_inv)

lemma reachable_distinct: "reachable pf c \<Longrightarrow> distinct (map id_t (tasks c))"
  by (drule reachable_inv) (simp add: app_inv_def)

lemma exec_reachable: "reachable pf c \<Longrightarrow> exec pf es c = Some c' \<Longrightarrow> reachable pf c'"
proof (induction es arbitrary: c)
  case Nil
  then show ?case by simp
next
  case (Cons e es)
  from Cons.prems(2) obtain c1 where s: "step pf e c = Some c1" and r: "exec pf es c1 = Some c'"
    by (auto split: option.splits)
  from Cons.prems(1) s have "reachable pf c1"
    by (rule reachable.after)
  then show ?case
    using r by (rule Cons.IH)
qed

lemma exec_append:
  "exec pf (es @ es') c = (case exec pf es c of None \<Rightarrow> None | Some c' \<Rightarrow> exec pf es' c')"
  by (induction es arbitrary: c) (auto split: option.splits)

lemma sample_midrun_exec: "exec sample_platform sample_events initial_app = Some sample_midrun"
  by (simp add: sample_events_def initial_app_def sample_midrun_def sample_snapshot_def
      processUrls_eq has_allowed_scheme_def startsWith_def trim_def isWhiteSpace_def
      newTask_def sample_uuid_def sample_uuid_later_def number_toString.simps
      getFileNameFromUrl_def fileName_try_eq sample_platform_def last_path_segment_def
      strip_query_fragment_def update_task_def to_downloading_def to_analyzing_def str_def)

lemma sample_late_exec: "exec sample_platform sample_events_later sample_midrun = Some sample_late"
  by (simp add: sample_events_later_def sample_midrun_def sample_late_def sample_snapshot_def
      update_task_def to_downloading_def to_analyzing_def to_completed_def to_failed_def
      http_error_404 str_def)

lemma sample_midrun_reachable: "reachable sample_platform sample_midrun"
  using reachable.initial sample_midrun_exec by (rule exec_reachable)

lemma sample_late_reachable: "reachable sample_platform sample_late"
  using sample_midrun_reachable sample_late_exec by (rule exec_reachable)

section \<open>A whole run is a path of the transition system\<close>

lemma iteration_reachable:
  fixes c :: "'b app" and fetch :: "nat \<Rightarrow> jsstring \<Rightarrow> 'b fetch_result"
  assumes "reachable pf (c\<lparr>tasks := prev, isProcessing := True, ctl := AtLoop S i\<rparr>)"
    and "i < length S"
  shows "reachable pf (c\<lparr>tasks := process_task fetch getPageCount i (S ! i) prev,
      isProcessing := True, ctl := AtLoop S (Suc i)\<rparr>)"
proof (cases "status (S ! i) = COMPLETED")
  case True
  let ?c0 = "c\<lparr>tasks := prev, isProcessing := True, ctl := AtLoop S i\<rparr>"
  have "step pf Resume ?c0 = Some (c\<lparr>tasks := prev, isProcessing := True, ctl := AtLoop S (Suc i)\<rparr>)"
    using assms(2) True by simp
  with assms(1) have "reachable pf (c\<lparr>tasks := prev, isProcessing := True, ctl := AtLoop S (Suc i)\<rparr>)"
    by (rule reachable.after)
  with True show ?thesis
    by (simp add: process_task_def)
next
  case False
  let ?x = "id_t (S ! i)"
  let ?c0 = "c\<lparr>tasks := prev, isProcessing := True, ctl := AtLoop S i\<rparr>"
  let ?p1 = "update_task ?x to_downloading prev"
  let ?c1 = "c\<lparr>tasks := ?p1, isProcessing := True, ctl := AwaitFetch S i\<rparr>"
  have "step pf Resume ?c0 = Some ?c1"
    using assms(2) False by simp
  with assms(1) have r1: "reachable pf ?c1"
    by (rule reachable.after)
  show ?thesis
  proof (cases "download (fetch i (url (S ! i)))")
    case (Inl message)
    let ?c2 = "c\<lparr>tasks := update_task ?x (to_failed message) ?p1, isProcessing := True,
        ctl := AtLoop S (Suc i)\<rparr>"
    have "step pf (FetchSettled (fetch i (url (S ! i)))) ?c1 = Some ?c2"
      using Inl assms(2) by simp
    with r1 have "reachable pf ?c2"
      by (rule reachable.after)
    with False Inl show ?thesis
      by (simp add: process_task_def)
  next
    case (Inr blob)
    let ?p2 = "update_task ?x to_analyzing ?p1"
    let ?c2 = "c\<lparr>tasks := ?p2, isProcessing := True, ctl := AwaitPageCount S i blob\<rparr>"
    have "step pf (FetchSettled (fetch i (url (S ! i)))) ?c1 = Some ?c2"
      using Inr assms(2) by simp
    with r1 have r2: "reachable pf ?c2"
      by (rule reachable.after)
    show ?thesis
    proof (cases "getPageCount i blob")
      case (Inl message)
      let ?c3 = "c\<lparr>tasks := update_task ?x (to_failed message) ?p2, isProcessing := True,
          ctl := AtLoop S (Suc i)\<rparr>"
      have "step pf (PageCountSettled (getPageCount i blob)) ?c2 = Some ?c3"
        using Inl assms(2) by simp
      with r2 have "reachable pf ?c3"
        by (rule reachable.after)
      with False Inr Inl show ?thesis
        by (simp add: process_task_def)
    next
      case (Inr n)
      let ?c3 = "c\<lparr>tasks := update_task ?x (to_completed n) ?p2, isProcessing := True,
          ctl := AtLoop S (Suc i)\<rparr>"
      have "step pf (PageCountSettled (getPageCount i blob)) ?c2 = Some ?c3"
        using Inr assms(2) by simp
      with r2 have "reachable pf ?c3"
        by (rule reachable.after)
      with False \<open>download (fetch i (url (S ! i))) = Inr blob\<close> Inr show ?thesis
        by (simp add: process_task_def)
    qed
  qed
qed

lemma run_loop_reachable:
  fixes c :: "'b app" and fetch :: "nat \<Rightarrow> jsstring \<Rightarrow> 'b fetch_result"
  shows
  "reachable pf (c\<lparr>tasks := prev, isProcessing := True, ctl := AtLoop S i\<rparr>) \<Longrightarrow>
   reachable pf (c\<lparr>tasks := run_loop fetch getPageCount S i prev,
     isProcessing := False, ctl := Stopped\<rparr>)"
proof (induction fetch getPageCount S i prev rule: run_loop.induct)
  case (1 fetch getPageCount S i prev)
  show ?case
  proof (cases "i < length S")
    case True
    with "1.prems" have "reachable pf (c\<lparr>tasks := process_task fetch getPageCount i (S ! i) prev,
        isProcessing := True, ctl := AtLoop S (Suc i)\<rparr>)"
      by (rule iteration_reachable)
    with True have "reachable pf
        (c\<lparr>tasks := run_loop fetch getPageCount S (Suc i)
              (process_task fetch getPageCount i (S ! i) prev),
           isProcessing := False, ctl := Stopped\<rparr>)"
      by (rule "1.IH")
    with True show ?thesis
      by (subst run_loop.simps) simp
  next
    case False
    let ?c0 = "c\<lparr>tasks := prev, isProcessing := True, ctl := AtLoop S i\<rparr>"
    have "step pf Resume ?c0 = Some (c\<lparr>tasks := prev, isProcessing := False, ctl := Stopped\<rparr>)"
      using False by simp
    with "1.prems" have "reachable pf (c\<lparr>tasks := prev, isProcessing := False, ctl := Stopped\<rparr>)"
      by (rule reachable.after)
    with False show ?thesis
      by (subst run_loop.simps) simp
  qed
qed

lemma runTasks_reachable:
  assumes "reachable pf c" and "ctl c = Stopped"
  shows "reachable pf (runTasks fetch getPageCount c)"
proof -
  from reachable_inv[OF assms(1)] assms(2) have np: "\<not> isProcessing c"
    by (simp add: app_inv_def)
  then have "step pf RunTasks c = Some (c\<lparr>isProcessing := True, ctl := AtLoop (tasks c) 0\<rparr>)"
    by simp
  with assms(1) have "reachable pf (c\<lparr>isProcessing := True, ctl := AtLoop (tasks c) 0\<rparr>)"
    by (rule reachable.after)
  then have "reachable pf (c\<lparr>tasks := tasks c, isProcessing := True, ctl := AtLoop (tasks c) 0\<rparr>)"
    by simp
  then have "reachable pf (c\<lparr>tasks := run_loop fetch getPageCount (tasks c) 0 (tasks c),
      isProcessing := False, ctl := Stopped\<rparr>)"
    by (rule run_loop_reachable)
  moreover have "c\<lparr>tasks := run_loop fetch getPageCount (tasks c) 0 (tasks c),
      isProcessing := False, ctl := Stopped\<rparr> = runTasks fetch getPageCount c"
    using assms(2) by (simp add: runTasks_def)
  ultimately show ?thesis by simp
qed

section \<open>Properties of the reachable states\<close>

lemma filter_at_most_one:
  assumes "\<forall>j < length xs. j \<noteq> i \<longrightarrow> \<not> P (xs ! j)"
  shows "length (filter P xs) \<le> 1"
proof (cases "i < length xs")
  case False
  with assms have "\<forall>x \<in> set xs. \<not> P x"
    by (auto simp: in_set_conv_nth)
  then have "filter P xs = []"
    by (simp add: filter_empty_conv)
  then show ?thesis by simp
next
  case True
  have "\<forall>x \<in> set (take i xs). \<not> P x"
    using assms True by (auto simp: in_set_conv_nth)
  then have a: "filter P (take i xs) = []"
    by (simp add: filter_empty_conv)
  have "\<forall>x \<in> set (drop (Suc i) xs). \<not> P x"
    using assms True by (auto simp: in_set_conv_nth)
  then have b: "filter P (drop (Suc i) xs) = []"
    by (simp add: filter_empty_conv)
  have "xs = take i xs @ xs ! i # drop (Suc i) xs"
    using True by (rule id_take_nth_drop)
  then have "filter P xs = filter P (take i xs @ xs ! i # drop (Suc i) xs)"
    by (rule arg_cong)
  then show ?thesis
    by (simp add: a b)
qed

lemma frontier_terminal_before:
  assumes "frontier S i ts" and "i \<le> length S" and "j < i"
  shows "terminal (ts ! j)"
proof -
  from assms have "if status (S ! j) = COMPLETED then ts ! j = S ! j else terminal (ts ! j)"
    by (simp add: frontier_def)
  then show ?thesis
    by (auto simp: terminal_def split: if_splits)
qed

lemma running_inv:
  assumes "app_inv c" and "ctl c \<noteq> Stopped"
  shows "frontier (run_snapshot (ctl c)) (run_index (ctl c)) (tasks c)"
    and "run_index (ctl c) \<le> length (run_snapshot (ctl c))"
    and "\<forall>t \<in> set (run_snapshot (ctl c)). \<not> active t"
  using assms by (cases "ctl c"; simp add: app_inv_def)+

text \<open>
  Claim C2. In every state the component can reach, that is, after every call of
  \<^verbatim>\<open>processUrls\<close>, every removal and every state update of a run, each task has a page count
  exactly when its status is \<open>COMPLETED\<close> and an error exactly when its status is \<open>FAILED\<close>.
\<close>

theorem task_fields_follow_status:
  assumes "reachable pf c"
  shows "\<forall>t \<in> set (tasks c).
     (pageCount t \<noteq> None \<longleftrightarrow> status t = COMPLETED) \<and> (error t \<noteq> None \<longleftrightarrow> status t = FAILED)"
  using reachable_inv[OF assms] by (simp add: app_inv_def task_inv_def)

theorem task_fields_follow_status_witness:
  "reachable sample_platform sample_late \<and>
   map (\<lambda>t. (status t, pageCount t, error t)) (tasks sample_late) =
     [(COMPLETED, Some 17, None),
      (FAILED, None, Some (str ''HTTP 404: Failed to download'')),
      (IDLE, None, None)]"
  using task_fields_follow_status[OF sample_late_reachable] sample_late_reachable
  by (simp add: sample_late_def)

text \<open>
  Claim C5. In every reachable state at most one task is \<open>DOWNLOADING\<close> or \<open>ANALYZING\<close>.
  None is while no run is in progress or while the run is at its loop test, where moreover
  every task before the index is \<open>COMPLETED\<close> or \<open>FAILED\<close>; and the only step that takes a
  state with no such task to a state with one is the run leaving its loop test.
\<close>

theorem one_task_in_flight:
  assumes "reachable pf c"
  shows "length (filter active (tasks c)) \<le> 1 \<and>
     (ctl c = Stopped \<longrightarrow> (\<forall>t \<in> set (tasks c). \<not> active t)) \<and>
     (\<forall>S i. ctl c = AtLoop S i \<longrightarrow>
        (\<forall>t \<in> set (tasks c). \<not> active t) \<and> (\<forall>j < i. terminal (tasks c ! j))) \<and>
     (\<forall>e c'. step pf e c = Some c' \<and> (\<forall>t \<in> set (tasks c). \<not> active t) \<and>
        (\<exists>t \<in> set (tasks c'). active t) \<longrightarrow> e = Resume \<and> (\<exists>S i. ctl c = AtLoop S i))"
proof (intro conjI allI impI)
  note inv = reachable_inv[OF assms]
  have others: "\<forall>j < length (tasks c). j \<noteq> run_index (ctl c) \<longrightarrow> \<not> active (tasks c ! j)"
  proof (cases "ctl c = Stopped")
    case True
    with inv show ?thesis by (simp add: app_inv_def)
  next
    case False
    note r = running_inv[OF inv False]
    show ?thesis
    proof (intro allI impI)
      fix j
      assume "j < length (tasks c)" and "j \<noteq> run_index (ctl c)"
      then have "j \<noteq> run_index (ctl c) \<or> length (run_snapshot (ctl c)) \<le> j"
        by simp
      with r(1,3) \<open>j < length (tasks c)\<close> show "\<not> active (tasks c ! j)"
        by (rule frontier_not_active)
    qed
  qed
  then show "length (filter active (tasks c)) \<le> 1"
    by (rule filter_at_most_one)
  show "\<forall>t \<in> set (tasks c). \<not> active t" if "ctl c = Stopped"
    using inv that by (simp add: app_inv_def)
  show "\<forall>t \<in> set (tasks c). \<not> active t" if "ctl c = AtLoop S i" for S i
  proof
    fix t
    assume "t \<in> set (tasks c)"
    then obtain j where j: "j < length (tasks c)" and t: "t = tasks c ! j"
      by (auto simp: in_set_conv_nth)
    from inv that have a: "frontier S i (tasks c)" "\<forall>t \<in> set S. \<not> active t"
        "i < length S \<longrightarrow> tasks c ! i = S ! i" "i \<le> length S"
      by (simp_all add: app_inv_def)
    show "\<not> active t"
    proof (cases "j = i \<and> i < length S")
      case True
      with a(2,3) show ?thesis unfolding t by simp
    next
      case False
      with a(4) have "j \<noteq> i \<or> length S \<le> j" by auto
      with a(1,2) j show ?thesis
        unfolding t by (rule frontier_not_active)
    qed
  qed
  show "terminal (tasks c ! j)" if "ctl c = AtLoop S i" "j < i" for S i j
  proof -
    from inv that(1) have "frontier S i (tasks c)" "i \<le> length S"
      by (simp_all add: app_inv_def)
    then show ?thesis using that(2) by (rule frontier_terminal_before)
  qed
  show "e = Resume" and "\<exists>S i. ctl c = AtLoop S i"
    if h: "step pf e c = Some c' \<and> (\<forall>t \<in> set (tasks c). \<not> active t) \<and>
        (\<exists>t \<in> set (tasks c'). active t)" for e c'
  proof -
    from h have s: "step pf e c = Some c'" and q: "\<forall>t \<in> set (tasks c). \<not> active t"
      and a: "\<exists>t \<in> set (tasks c'). active t"
      by simp_all
    have "e = Resume \<and> (\<exists>S i. ctl c = AtLoop S i)"
    proof (cases e)
      case (ProcessUrls uuidv4 urls)
      with s have "tasks c' = tasks c @ map (\<lambda>(k, u). newTask pf (uuidv4 k) u)
          (enumerate 0 (filter has_allowed_scheme (map trim urls)))"
        by (auto simp: processUrls_eq split: if_splits)
      with q a show ?thesis
        by (auto simp: active_def newTask_def)
    next
      case (RemoveTask tid)
      with s q a show ?thesis
        by (auto simp: removeTask_def split: if_splits)
    next
      case ClearAll
      with s q a show ?thesis
        by (auto split: if_splits)
    next
      case RunTasks
      with s q a show ?thesis
        by (auto split: if_splits)
    next
      case Resume
      with s show ?thesis
        by (cases "ctl c") simp_all
    next
      case (FetchSettled r)
      with s obtain S i where "ctl c = AwaitFetch S i"
        by (cases "ctl c") simp_all
      with inv have i: "i < length (tasks c)" and "tasks c ! i = to_downloading (S ! i)"
        by (auto simp: app_inv_def dest: frontier_lengthD)
      then have "active (tasks c ! i)"
        by (simp add: active_def to_downloading_def)
      moreover from i have "tasks c ! i \<in> set (tasks c)"
        by (rule nth_mem)
      ultimately show ?thesis using q by blast
    next
      case (PageCountSettled r)
      with s obtain S i b where "ctl c = AwaitPageCount S i b"
        by (cases "ctl c") simp_all
      with inv have i: "i < length (tasks c)"
        and "tasks c ! i = to_analyzing (to_downloading (S ! i))"
        by (auto simp: app_inv_def dest: frontier_lengthD)
      then have "active (tasks c ! i)"
        by (simp add: active_def to_analyzing_def)
      moreover from i have "tasks c ! i \<in> set (tasks c)"
        by (rule nth_mem)
      ultimately show ?thesis using q by blast
    qed
    then show "e = Resume" and "\<exists>S i. ctl c = AtLoop S i"
      by simp_all
  qed
qed

theorem one_task_in_flight_witness:
  "reachable sample_platform sample_midrun \<and>
   filter active (tasks sample_midrun) = [tasks sample_midrun ! 0] \<and>
   reachable sample_platform sample_late \<and>
   filter active (tasks sample_late) = []"
  using one_task_in_flight[OF sample_midrun_reachable] one_task_in_flight[OF sample_late_reachable]
    sample_midrun_reachable sample_late_reachable
  by (simp add: sample_midrun_def sample_late_def active_def)

lemma step_keeps_snapshot:
  assumes "step pf e c = Some c'" and "ctl c \<noteq> Stopped" and "ctl c' \<noteq> Stopped"
    and "isProcessing c"
  shows "run_snapshot (ctl c') = run_snapshot (ctl c) \<and>
     (run_index (ctl c') = run_index (ctl c) \<or> run_index (ctl c') = Suc (run_index (ctl c)))"
proof (cases e)
  case (ProcessUrls uuidv4 urls)
  with assms show ?thesis by (auto split: if_splits)
next
  case (RemoveTask tid)
  with assms show ?thesis by (auto split: if_splits)
next
  case ClearAll
  with assms show ?thesis by (auto split: if_splits)
next
  case RunTasks
  with assms show ?thesis by (auto split: if_splits)
next
  case Resume
  with assms show ?thesis by (cases "ctl c") (auto split: if_splits)
next
  case (FetchSettled r)
  with assms show ?thesis by (cases "ctl c") (auto split: if_splits sum.splits)
next
  case (PageCountSettled r)
  with assms show ?thesis by (cases "ctl c") (auto split: if_splits sum.splits)
qed

text \<open>
  Claim C6. A run starts with a copy of the task list as it then is, and no step changes
  the copy while the run lasts; the index moves by one at a time. At every moment of the
  run the task list starts with the tasks of the copy, in order; those before the index
  are \<open>COMPLETED\<close> or \<open>FAILED\<close>, those after it are as they were when the run started; and
  the tasks behind the copy, which are those added since, are as they were created.
\<close>

theorem run_follows_snapshot:
  assumes "reachable pf c"
  shows "(ctl c = Stopped \<longrightarrow>
       step pf RunTasks c = Some (c\<lparr>isProcessing := True, ctl := AtLoop (tasks c) 0\<rparr>)) \<and>
     (ctl c \<noteq> Stopped \<longrightarrow>
       length (run_snapshot (ctl c)) \<le> length (tasks c) \<and>
       run_index (ctl c) \<le> length (run_snapshot (ctl c)) \<and>
       map id_t (take (length (run_snapshot (ctl c))) (tasks c)) = map id_t (run_snapshot (ctl c)) \<and>
       (\<forall>j < run_index (ctl c). terminal (tasks c ! j)) \<and>
       (\<forall>j < length (run_snapshot (ctl c)). run_index (ctl c) < j \<longrightarrow>
          tasks c ! j = run_snapshot (ctl c) ! j) \<and>
       (\<forall>j < length (tasks c). length (run_snapshot (ctl c)) \<le> j \<longrightarrow> untouched (tasks c ! j)) \<and>
       (\<forall>e c'. step pf e c = Some c' \<and> ctl c' \<noteq> Stopped \<longrightarrow>
          run_snapshot (ctl c') = run_snapshot (ctl c) \<and>
          (run_index (ctl c') = run_index (ctl c) \<or>
           run_index (ctl c') = Suc (run_index (ctl c)))))"
proof (intro conjI impI)
  note inv = reachable_inv[OF assms]
  show "step pf RunTasks c = Some (c\<lparr>isProcessing := True, ctl := AtLoop (tasks c) 0\<rparr>)"
    if "ctl c = Stopped"
    using inv that by (simp add: app_inv_def)
  assume run: "ctl c \<noteq> Stopped"
  note r = running_inv[OF inv run]
  let ?S = "run_snapshot (ctl c)"
  show "length ?S \<le> length (tasks c)"
    using r(1) by (rule frontier_lengthD)
  show "run_index (ctl c) \<le> length ?S"
    by (rule r(2))
  show "map id_t (take (length ?S) (tasks c)) = map id_t ?S"
    using r(1) by (intro nth_equalityI) (auto simp: frontier_def)
  show "\<forall>j < run_index (ctl c). terminal (tasks c ! j)"
    using r(1,2) by (auto intro: frontier_terminal_before)
  show "\<forall>j < length ?S. run_index (ctl c) < j \<longrightarrow> tasks c ! j = ?S ! j"
    using r(1) by (simp add: frontier_def)
  show "\<forall>j < length (tasks c). length ?S \<le> j \<longrightarrow> untouched (tasks c ! j)"
    using r(1) by (simp add: frontier_def)
  have p: "isProcessing c"
    using inv run by (simp add: app_inv_def)
  show "\<forall>e c'. step pf e c = Some c' \<and> ctl c' \<noteq> Stopped \<longrightarrow>
      run_snapshot (ctl c') = ?S \<and>
      (run_index (ctl c') = run_index (ctl c) \<or> run_index (ctl c') = Suc (run_index (ctl c)))"
    using run p by (auto dest: step_keeps_snapshot)
qed

theorem run_follows_snapshot_witness:
  "reachable sample_platform sample_late \<and>
   run_snapshot (ctl sample_late) = sample_snapshot \<and>
   length sample_snapshot = 2 \<and>
   run_index (ctl sample_late) = 2 \<and>
   map status (tasks sample_late) = [COMPLETED, FAILED, IDLE] \<and>
   untouched (tasks sample_late ! 2)"
  using run_follows_snapshot[OF sample_late_reachable] sample_late_reachable
  by (simp add: sample_late_def sample_snapshot_def untouched_def)

text \<open>
  Claim C9. For the task list of every reachable state, \<^verbatim>\<open>exportToExcel\<close> builds one row per
  task, in order, with the task's file name and URL; the page count cell is the task's
  page count when the task is \<open>COMPLETED\<close>, the string \<^verbatim>\<open>Error\<close> when it is \<open>FAILED\<close>, and the
  string \<^verbatim>\<open>Pending\<close> when it is \<open>IDLE\<close>, \<open>DOWNLOADING\<close> or \<open>ANALYZING\<close>.
\<close>

theorem exportData_rows:
  assumes "reachable pf c"
  shows "length (exportData (tasks c)) = length (tasks c) \<and>
     (\<forall>i < length (tasks c).
        File_Name (exportData (tasks c) ! i) = fileName (tasks c ! i) \<and>
        URL (exportData (tasks c) ! i) = url (tasks c ! i) \<and>
        (status (tasks c ! i) = COMPLETED \<longrightarrow>
           (\<exists>n. pageCount (tasks c ! i) = Some n \<and>
                Page_Count (exportData (tasks c) ! i) = Number n)) \<and>
        (status (tasks c ! i) = FAILED \<longrightarrow>
           Page_Count (exportData (tasks c) ! i) = Text (str ''Error'')) \<and>
        (status (tasks c ! i) = IDLE \<or> status (tasks c ! i) = DOWNLOADING \<or>
         status (tasks c ! i) = ANALYZING \<longrightarrow>
           Page_Count (exportData (tasks c) ! i) = Text (str ''Pending'')))"
proof (intro conjI allI impI)
  show "length (exportData (tasks c)) = length (tasks c)"
    by (simp add: exportData_def)
next
  fix i
  assume i: "i < length (tasks c)"
  then have "tasks c ! i \<in> set (tasks c)"
    by (rule nth_mem)
  with reachable_inv[OF assms] have t: "task_inv (tasks c ! i)"
    by (simp add: app_inv_def)
  show "File_Name (exportData (tasks c) ! i) = fileName (tasks c ! i)"
    and "URL (exportData (tasks c) ! i) = url (tasks c ! i)"
    using i by (simp_all add: exportData_def)
  show "\<exists>n. pageCount (tasks c ! i) = Some n \<and> Page_Count (exportData (tasks c) ! i) = Number n"
    if "status (tasks c ! i) = COMPLETED"
    using i t that by (auto simp: exportData_def task_inv_def)
  show "Page_Count (exportData (tasks c) ! i) = Text (str ''Error'')"
    if "status (tasks c ! i) = FAILED"
    using i t that by (auto simp: exportData_def task_inv_def split: option.splits)
  show "Page_Count (exportData (tasks c) ! i) = Text (str ''Pending'')"
    if "status (tasks c ! i) = IDLE \<or> status (tasks c ! i) = DOWNLOADING \<or>
         status (tasks c ! i) = ANALYZING"
    using i t that by (auto simp: exportData_def task_inv_def split: option.splits)
qed

theorem exportData_rows_witness:
  "reachable sample_platform sample_late \<and>
   exportData (tasks sample_late) =
     [\<lparr>File_Name = str ''x.pdf'', URL = str ''https://a/x.pdf'', Page_Count = Number 17\<rparr>,
      \<lparr>File_Name = str ''y.pdf'', URL = str ''https://b/y.pdf'', Page_Count = Text (str ''Error'')\<rparr>,
      \<lparr>File_Name = str ''z.pdf'', URL = str ''https://c/z.pdf'', Page_Count = Text (str ''Pending'')\<rparr>]"
  using exportData_rows[OF sample_late_reachable] sample_late_reachable
  by (simp add: sample_late_def exportData_def)

end
